theory Spec2Isabelle
  imports Main "HOL-Library.Sublist"
begin

section \<open>Strings and paths\<close>

text \<open>
  Go strings are byte sequences; they are modelled as \<open>string\<close> (a list of 8-bit
  characters). The program runs on a system whose path separator is the slash, and the
  functions of the packages \<open>strings\<close> and \<open>path/filepath\<close> that \<open>main.go\<close> calls are
  written out after their library implementations for such a system.
\<close>

definition Separator :: char where
  "Separator = CHR ''/''"

definition IsPathSeparator :: "char \<Rightarrow> bool" where
  "IsPathSeparator c = (c = Separator)"

text \<open>\<open>strings.HasPrefix\<close>, \<open>strings.TrimPrefix\<close>, \<open>strings.HasSuffix\<close>, \<open>strings.TrimSuffix\<close>.\<close>

definition HasPrefix :: "string \<Rightarrow> string \<Rightarrow> bool" where
  "HasPrefix s p = (length p \<le> length s \<and> take (length p) s = p)"

definition TrimPrefix :: "string \<Rightarrow> string \<Rightarrow> string" where
  "TrimPrefix s p = (if HasPrefix s p then drop (length p) s else s)"

definition HasSuffix :: "string \<Rightarrow> string \<Rightarrow> bool" where
  "HasSuffix s x = (length x \<le> length s \<and> drop (length s - length x) s = x)"

definition TrimSuffix :: "string \<Rightarrow> string \<Rightarrow> string" where
  "TrimSuffix s x = (if HasSuffix s x then take (length s - length x) s else s)"

text \<open>
  \<open>filepath.Ext\<close>: scanning from the end of the path, the suffix that starts at the
  first dot met before any separator; empty when a separator or the start of the path
  comes first. The scan runs over the reversed path, \<open>acc\<close> holding the bytes already
  passed.
\<close>

fun ext_scan :: "string \<Rightarrow> string \<Rightarrow> string" where
  "ext_scan [] acc = []"
| "ext_scan (c # cs) acc =
     (if IsPathSeparator c then []
      else if c = CHR ''.'' then c # acc
      else ext_scan cs (c # acc))"

definition Ext :: "string \<Rightarrow> string" where
  "Ext path = ext_scan (rev path) []"

text \<open>
  \<open>filepath.Base\<close>: the empty path gives a dot; trailing separators are stripped; the
  last element is what follows the last separator left; a path of separators only gives
  one separator.
\<close>

definition Base :: "string \<Rightarrow> string" where
  "Base path =
     (if path = [] then ''.''
      else
        let stripped = rev (dropWhile IsPathSeparator (rev path));
            elem = rev (takeWhile (\<lambda>c. \<not> IsPathSeparator c) (rev stripped))
        in if elem = [] then [Separator] else elem)"

text \<open>
  \<open>filepath.Clean\<close>. The library reads the path at index \<open>r\<close> and writes a buffer of
  \<open>w\<close> bytes; \<open>dotdot\<close> is the buffer index below which a \<open>..\<close> element must not
  backtrack. Here the unread rest of the path and the written part of the buffer are
  lists.
\<close>

function backtrack :: "string \<Rightarrow> nat \<Rightarrow> nat \<Rightarrow> string" where
  "backtrack buf w dotdot =
     (if w > dotdot \<and> \<not> IsPathSeparator (buf ! w) then backtrack buf (w - 1) dotdot
      else take w buf)"
  by pat_completeness auto
termination
  by (relation "measure (\<lambda>(buf, w, dotdot). w)") auto

function clean_loop :: "bool \<Rightarrow> string \<Rightarrow> string \<Rightarrow> nat \<Rightarrow> string" where
  "clean_loop rooted [] out dotdot = out"
| "clean_loop rooted (c # cs) out dotdot =
     (if IsPathSeparator c then clean_loop rooted cs out dotdot
      else if c = CHR ''.'' \<and> (cs = [] \<or> IsPathSeparator (hd cs)) then
        clean_loop rooted cs out dotdot
      else if c = CHR ''.'' \<and> hd cs = CHR ''.'' \<and> (tl cs = [] \<or> IsPathSeparator (hd (tl cs))) then
        (if length out > dotdot then
           clean_loop rooted (tl cs) (backtrack out (length out - 1) dotdot) dotdot
         else if \<not> rooted then
           (let out' = (if length out > 0 then out @ [Separator] else out) @ ''..''
            in clean_loop rooted (tl cs) out' (length out'))
         else clean_loop rooted (tl cs) out dotdot)
      else
        (let out' = (if rooted \<and> length out \<noteq> 1 \<or> \<not> rooted \<and> length out \<noteq> 0
                     then out @ [Separator] else out)
         in clean_loop rooted (dropWhile (\<lambda>x. \<not> IsPathSeparator x) cs)
              (out' @ c # takeWhile (\<lambda>x. \<not> IsPathSeparator x) cs) dotdot))"
  by pat_completeness auto
termination
  by (relation "measure (\<lambda>(rooted, path, out, dotdot). length path)")
     (auto simp: less_Suc_eq_le length_dropWhile_le intro: le_trans [OF length_dropWhile_le])

text \<open>
  Each of the two loops is one equation that calls itself under a condition: the
  simplifier is given these equations where a path is evaluated, and not otherwise.
\<close>

declare backtrack.simps [simp del] clean_loop.simps [simp del]

definition Clean :: "string \<Rightarrow> string" where
  "Clean path =
     (if path = [] then ''.''
      else
        let rooted = IsPathSeparator (hd path);
            out = (if rooted then clean_loop True (tl path) [Separator] 1
                   else clean_loop False path [] 0)
        in if out = [] then ''.'' else out)"

text \<open>\<open>filepath.Join\<close> of two elements, \<open>filepath.IsAbs\<close>.\<close>

definition Join :: "string \<Rightarrow> string \<Rightarrow> string" where
  "Join a b =
     (if a \<noteq> [] then Clean (a @ [Separator] @ b)
      else if b \<noteq> [] then Clean b
      else [])"

definition IsAbs :: "string \<Rightarrow> bool" where
  "IsAbs path = HasPrefix path ''/''"

section \<open>The world outside the program\<close>

text \<open>
  A Go \<open>error\<close> is an opaque value that prints as its message.
\<close>

datatype error = Error string

fun message :: "error \<Rightarrow> string" where
  "message (Error m) = m"

text \<open>
  The status codes of the version-control library are bytes; the three that the status
  command compares with, and their neighbours.
\<close>

type_synonym StatusCode = char

definition Unmodified :: StatusCode where "Unmodified = CHR '' ''"
definition Untracked :: StatusCode where "Untracked = CHR ''?''"
definition Modified :: StatusCode where "Modified = CHR ''M''"
definition Added :: StatusCode where "Added = CHR ''A''"
definition Deleted :: StatusCode where "Deleted = CHR ''D''"
definition Renamed :: StatusCode where "Renamed = CHR ''R''"
definition Copied :: StatusCode where "Copied = CHR ''C''"
definition UpdatedButUnmerged :: StatusCode where "UpdatedButUnmerged = CHR ''U''"

record FileStatus =
  Staging :: StatusCode
  Worktree :: StatusCode
  Extra :: string

text \<open>
  The calls the program makes to its collaborators: the SSH agent, the version-control
  library and the directory listing of the file system. A repository handle is
  identified by the path of its storage, a working tree by the storage path of its
  repository.
\<close>

datatype call =
    NewSSHAgentAuth string
  | PlainClone string bool string
  | NewStorage string
  | GitOpen string string
  | GetWorktree string
  | Checkout string bool
  | GetStatus string
  | StageFile string string
  | CommitAll string string bool string string
  | Push string
  | Pull string
  | ReadDir string

text \<open>
  The world: the environment variables, the process's current directory (or the error
  of asking for it), what each collaborator answers, and what the program has done so
  far. An answer may depend on every call made before it (\<open>calls\<close>, oldest first), so
  that the library is free to succeed or fail at each point. \<open>wtStatus\<close> gives the
  status map of a working tree as the list of its entries in the order in which the
  \<open>range\<close> loop of the program meets them; the keys of a map are distinct. \<open>stdout\<close>
  holds the lines printed by the program itself.
\<close>

record world =
  environ :: "string \<Rightarrow> string"
  getwd :: "error + string"
  fails :: "call list \<Rightarrow> call \<Rightarrow> error option"
  dirEntries :: "call list \<Rightarrow> string \<Rightarrow> string list"
  wtStatus :: "call list \<Rightarrow> string \<Rightarrow> (string \<times> FileStatus) list"
  calls :: "call list"
  stdout :: "string list"

definition invoke :: "call \<Rightarrow> world \<Rightarrow> world \<times> error option" where
  "invoke c w = (w\<lparr>calls := calls w @ [c]\<rparr>, fails w (calls w) c)"

definition println :: "string \<Rightarrow> world \<Rightarrow> world" where
  "println l w = w\<lparr>stdout := stdout w @ [l]\<rparr>"

text \<open>\<open>filepath.Abs\<close>: a relative path is joined to the current directory, and the
  failure to find the current directory is an error with the empty path.\<close>

definition Abs :: "world \<Rightarrow> string \<Rightarrow> string \<times> error option" where
  "Abs w path =
     (if IsAbs path then (Clean path, None)
      else case getwd w of
             Inl e \<Rightarrow> ([], Some e)
           | Inr wd \<Rightarrow> (Join wd path, None))"

section \<open>The program\<close>

definition dotfilesBasedir :: string where
  "dotfilesBasedir = ''./dotfiles''"

definition dotfilesWorkdir :: string where
  "dotfilesWorkdir = ''./workdir''"

definition getAuthMethod :: "world \<Rightarrow> world \<times> error option" where
  "getAuthMethod w = invoke (NewSSHAgentAuth ''git'') w"

definition getAuthor :: "world \<Rightarrow> (string \<times> string) \<times> error option" where
  "getAuthor w =
     (let sig = (environ w ''GIT_AUTHOR_NAME'', environ w ''GIT_AUTHOR_EMAIL'')
      in if fst sig = [] \<or> snd sig = []
         then (sig, Some (Error
           ''GIT_AUTHOR_NAME and GIT_AUTHOR_EMAIL envionment variables must exist.''))
         else (sig, None))"

definition baseName :: "string \<Rightarrow> string \<times> error option" where
  "baseName repoUrl = (Base repoUrl, None)"

text \<open>\<open>openWorkingRepo\<close> returns the storage path of the repository it opened.\<close>

definition openWorkingRepo :: "string \<Rightarrow> world \<Rightarrow> world \<times> (error + string)" where
  "openWorkingRepo repoName w =
     (let repoPath = Join dotfilesBasedir (repoName @ ''.git'')
      in case invoke (NewStorage repoPath) w of
           (w1, Some e) \<Rightarrow> (w1, Inl e)
         | (w1, None) \<Rightarrow>
             (case invoke (GitOpen repoPath dotfilesWorkdir) w1 of
                (w2, Some e) \<Rightarrow> (w2, Inl e)
              | (w2, None) \<Rightarrow> (w2, Inr repoPath)))"

definition executeInit :: "string \<Rightarrow> world \<Rightarrow> world \<times> error option" where
  "executeInit repoUrl w =
     (let w0 = println (''Initialising repo '' @ repoUrl) w
      in case baseName repoUrl of
           (b, Some e) \<Rightarrow> (w0, Some e)
         | (b, None) \<Rightarrow>
             (let w1 = println (''Repo basename = '' @ b) w0;
                  basePath = Join dotfilesBasedir b;
                  w2 = println (''Repo basepath = '' @ basePath) w1
              in case getAuthMethod w2 of
                   (w3, Some e) \<Rightarrow> (w3, Some e)
                 | (w3, None) \<Rightarrow>
              (case invoke (PlainClone basePath True repoUrl) w3 of
                   (w4, Some e) \<Rightarrow> (w4, Some e)
                 | (w4, None) \<Rightarrow>
              (let w5 = println (''Workdir = '' @ dotfilesWorkdir) w4
               in case invoke (GitOpen basePath dotfilesWorkdir) w5 of
                   (w6, Some e) \<Rightarrow> (w6, Some e)
                 | (w6, None) \<Rightarrow>
              (case invoke (GetWorktree basePath) w6 of
                   (w7, Some e) \<Rightarrow> (w7, Some e)
                 | (w7, None) \<Rightarrow> invoke (Checkout basePath True) w7)))))"

text \<open>
  The inner loop of \<open>executeStatus\<close> over the entries of a status map, then the body of
  its loop over the repo names, then that loop, which returns at the first error.
\<close>

fun printStatus :: "(string \<times> FileStatus) list \<Rightarrow> world \<Rightarrow> world" where
  "printStatus [] w = w"
| "printStatus ((f, s) # rest) w =
     (if Worktree s = Modified \<or> Worktree s = Added \<or> Worktree s = Deleted
      then printStatus rest (println (''['' @ [Worktree s] @ ''] '' @ f) w)
      else printStatus rest w)"

definition statusOf :: "string \<Rightarrow> world \<Rightarrow> world \<times> error option" where
  "statusOf repoName w =
     (let w0 = println (repoName @ '':'') w
      in case openWorkingRepo repoName w0 of
           (w1, Inl e) \<Rightarrow> (w1, Some e)
         | (w1, Inr repo) \<Rightarrow>
             (case invoke (GetWorktree repo) w1 of
                (w2, Some e) \<Rightarrow> (w2, Some e)
              | (w2, None) \<Rightarrow>
                  (case invoke (GetStatus repo) w2 of
                     (w3, Some e) \<Rightarrow> (w3, Some e)
                   | (w3, None) \<Rightarrow> (printStatus (wtStatus w2 (calls w2) repo) w3, None))))"

fun statusLoop :: "string list \<Rightarrow> world \<Rightarrow> world \<times> error option" where
  "statusLoop [] w = (w, None)"
| "statusLoop (repoName # rest) w =
     (case statusOf repoName w of
        (w', Some e) \<Rightarrow> (w', Some e)
      | (w', None) \<Rightarrow> statusLoop rest w')"

definition executeStatus :: "string \<Rightarrow> world \<Rightarrow> world \<times> error option" where
  "executeStatus repoName w =
     (if repoName = [] then
        (case invoke (ReadDir dotfilesBasedir) w of
           (w1, Some e) \<Rightarrow> (w1, Some e)
         | (w1, None) \<Rightarrow>
             statusLoop (map (\<lambda>f. TrimSuffix f ''.git'') (dirEntries w (calls w) dotfilesBasedir)) w1)
      else statusLoop [repoName] w)"

definition executeAdd :: "string \<Rightarrow> string \<Rightarrow> world \<Rightarrow> world \<times> error option" where
  "executeAdd repoName addfile w =
     (let w0 = println (''Adding '' @ addfile @ '' to '' @ repoName) w
      in case openWorkingRepo repoName w0 of
           (w1, Inl e) \<Rightarrow> (w1, Some e)
         | (w1, Inr repo) \<Rightarrow>
             (case invoke (GetWorktree repo) w1 of
                (w2, Some e) \<Rightarrow> (w2, Some e)
              | (w2, None) \<Rightarrow>
                  (let absSrc = fst (Abs w2 addfile);
                       absDst = fst (Abs w2 dotfilesWorkdir);
                       path = TrimPrefix absSrc absDst;
                       path' = TrimPrefix path [Separator]
                   in invoke (StageFile repo path') w2)))"

fun printBases :: "string list \<Rightarrow> world \<Rightarrow> world" where
  "printBases [] w = w"
| "printBases (name # rest) w = printBases rest (println (TrimSuffix name (Ext name)) w)"

definition executeList :: "bool \<Rightarrow> world \<Rightarrow> world \<times> error option" where
  "executeList verbose w =
     (if verbose then (w, Some (Error ''verbose listing not implemented.''))
      else case invoke (ReadDir dotfilesBasedir) w of
             (w1, Some e) \<Rightarrow> (w1, Some e)
           | (w1, None) \<Rightarrow> (printBases (dirEntries w (calls w) dotfilesBasedir) w1, None))"

definition executePull :: "string \<Rightarrow> world \<Rightarrow> world \<times> error option" where
  "executePull repoName w =
     (case openWorkingRepo repoName w of
        (w1, Inl e) \<Rightarrow> (w1, Some e)
      | (w1, Inr repo) \<Rightarrow>
          (case getAuthMethod w1 of
             (w2, Some e) \<Rightarrow> (w2, Some e)
           | (w2, None) \<Rightarrow> invoke (Pull repo) w2))"

definition executeSave :: "string \<Rightarrow> string \<Rightarrow> world \<Rightarrow> world \<times> error option" where
  "executeSave repoName msg w =
     (case openWorkingRepo repoName w of
        (w1, Inl e) \<Rightarrow> (w1, Some e)
      | (w1, Inr repo) \<Rightarrow>
          (case invoke (GetWorktree repo) w1 of
             (w2, Some e) \<Rightarrow> (w2, Some e)
           | (w2, None) \<Rightarrow>
          (case getAuthor w2 of
             (author, Some e) \<Rightarrow> (w2, Some e)
           | (author, None) \<Rightarrow>
          (case invoke (CommitAll repo msg True (fst author) (snd author)) w2 of
             (w3, Some e) \<Rightarrow> (w3, Some e)
           | (w3, None) \<Rightarrow>
          (case getAuthMethod w3 of
             (w4, Some e) \<Rightarrow> (w4, Some e)
           | (w4, None) \<Rightarrow> invoke (Push repo) w4)))))"

text \<open>
  The command line after parsing: the full name of the selected command and the values
  the parser stored for the arguments and flags.
\<close>

record arguments =
  initRepo :: string
  pullRepo :: string
  addRepo :: string
  addFile :: string
  saveRepo :: string
  saveMsg :: string
  undoRepo :: string
  listVerbose :: bool
  statusRepo :: string

text \<open>\<open>main\<close> returns the world it leaves and the exit status of the process.\<close>

definition main :: "string \<Rightarrow> arguments \<Rightarrow> world \<Rightarrow> world \<times> nat" where
  "main cmd a w =
     (let (w', cmdErr) =
        (if cmd = ''init'' then executeInit (initRepo a) w
         else if cmd = ''list'' then executeList (listVerbose a) w
         else if cmd = ''status'' then executeStatus (statusRepo a) w
         else if cmd = ''add'' then executeAdd (addRepo a) (addFile a) w
         else if cmd = ''save'' then executeSave (saveRepo a) (saveMsg a) w
         else if cmd = ''pull'' then executePull (pullRepo a) w
         else (w, None))
      in case cmdErr of
           Some e \<Rightarrow> (println (message e) w', 1)
         | None \<Rightarrow> (w', 0))"

section \<open>The final segment of a path, in the words of the specification\<close>

text \<open>
  The segments of a path are the parts between its separators. The basename of a path is
  its final segment, empty segments (those of doubled or trailing separators) left
  aside; a path with no other segment has the basename \<open>.\<close> when it is empty and
  the separator when it is not.
\<close>

fun segments :: "string \<Rightarrow> string list" where
  "segments [] = [[]]"
| "segments (c # cs) =
     (if c = Separator then [] # segments cs
      else (case segments cs of
              [] \<Rightarrow> [[c]]
            | s # ss \<Rightarrow> (c # s) # ss))"

definition finalSegment :: "string \<Rightarrow> string" where
  "finalSegment url =
     (case filter (\<lambda>s. s \<noteq> []) (segments url) of
        [] \<Rightarrow> (if url = [] then ''.'' else [Separator])
      | s # ss \<Rightarrow> last (s # ss))"

section \<open>Reading the calls and the output of the status command\<close>

text \<open>
  A status entry is shown when its working-tree code is one of the three the switch of
  the status command names, and its line is the code in brackets before the file name.
  \<open>repoPath\<close> is the storage path that \<open>openWorkingRepo\<close> builds for a repo name,
  \<open>repoCalls\<close> the calls of one round of the status loop that goes through, and
  \<open>storagesOpened\<close> picks the storage paths out of a list of calls, in order.
\<close>

definition shown :: "string \<times> FileStatus \<Rightarrow> bool" where
  "shown e = (Worktree (snd e) \<in> {Modified, Added, Deleted})"

definition statusLine :: "string \<times> FileStatus \<Rightarrow> string" where
  "statusLine e = ''['' @ [Worktree (snd e)] @ ''] '' @ fst e"

definition repoPath :: "string \<Rightarrow> string" where
  "repoPath name = Join dotfilesBasedir (name @ ''.git'')"

definition repoCalls :: "string \<Rightarrow> call list" where
  "repoCalls name =
     [NewStorage (repoPath name), GitOpen (repoPath name) dotfilesWorkdir,
      GetWorktree (repoPath name), GetStatus (repoPath name)]"

fun storagesOpened :: "call list \<Rightarrow> string list" where
  "storagesOpened [] = []"
| "storagesOpened (NewStorage p # cs) = p # storagesOpened cs"
| "storagesOpened (c # cs) = storagesOpened cs"

section \<open>Stopping at the first error\<close>

text \<open>
  \<open>firstErrorStops f h new r\<close> goes through the calls \<open>new\<close> made after the history
  \<open>h\<close>, in order: a call that fails is the last call made, and its error is the result
  \<open>r\<close>. \<open>stopsAtFirstError w res\<close> says so of a command that started in the world
  \<open>w\<close> and ended with \<open>res\<close>: the calls of \<open>w\<close> are still there, and the calls added to
  them stop at the first that fails, whose error is returned.
\<close>

fun firstErrorStops ::
  "(call list \<Rightarrow> call \<Rightarrow> error option) \<Rightarrow> call list \<Rightarrow> call list \<Rightarrow> error option \<Rightarrow> bool" where
  "firstErrorStops f h [] r = True"
| "firstErrorStops f h (c # cs) r =
     (case f h c of
        Some e \<Rightarrow> cs = [] \<and> r = Some e
      | None \<Rightarrow> firstErrorStops f (h @ [c]) cs r)"

definition stopsAtFirstError :: "world \<Rightarrow> world \<times> error option \<Rightarrow> bool" where
  "stopsAtFirstError w res =
     (take (length (calls w)) (calls (fst res)) = calls w \<and>
      firstErrorStops (fails w) (calls w) (drop (length (calls w)) (calls (fst res))) (snd res))"

section \<open>Cleaned paths\<close>

text \<open>
  A path with no two separators side by side, and the invariant of the loop of
  \<open>filepath.Clean\<close>: the buffer has no two separators side by side, \<open>dotdot\<close> lies
  within it, it ends in a separator only when it is the root alone, and the byte before
  \<open>dotdot\<close> is a separator only when that is the root.
\<close>

fun noDoubleSep :: "string \<Rightarrow> bool" where
  "noDoubleSep (a # b # cs) = (\<not> (a = Separator \<and> b = Separator) \<and> noDoubleSep (b # cs))"
| "noDoubleSep cs = True"

definition cleanInv :: "bool \<Rightarrow> string \<Rightarrow> nat \<Rightarrow> bool" where
  "cleanInv rooted out dotdot =
     (noDoubleSep out \<and> dotdot \<le> length out \<and>
      (out \<noteq> [] \<and> last out = Separator \<longrightarrow> rooted \<and> length out = 1) \<and>
      (0 < dotdot \<and> out ! (dotdot - 1) = Separator \<longrightarrow> rooted \<and> dotdot = 1))"

section \<open>Concrete worlds\<close>

text \<open>
  A world in which every collaborator succeeds, the author variables are unset, the base
  directory holds one repository and one other file, and every working tree has one
  modified and one unmodified file.
\<close>

definition exampleWorld :: world where
  "exampleWorld =
     \<lparr>environ = (\<lambda>v. []), getwd = Inr ''/home/u'', fails = (\<lambda>h c. None),
      dirEntries = (\<lambda>h d. [''core.git'', ''notes.txt'']),
      wtStatus = (\<lambda>h r. [(''.bashrc'', \<lparr>Staging = Unmodified, Worktree = Modified, Extra = []\<rparr>),
                          (''.vimrc'', \<lparr>Staging = Unmodified, Worktree = Unmodified, Extra = []\<rparr>)]),
      calls = [], stdout = []\<rparr>"

text \<open>
  The example world with the current directory gone and a library that finds nothing to
  stage at the empty path, and the example world with the author variables set and a
  remote that rejects every push.
\<close>

definition cwdGoneWorld :: world where
  "cwdGoneWorld =
     exampleWorld\<lparr>getwd := Inl (Error ''getwd: no such file or directory''),
                   fails := (\<lambda>h c. case c of
                                StageFile r p \<Rightarrow>
                                  if p = [] then Some (Error ''entry not found'') else None
                              | _ \<Rightarrow> None)\<rparr>"

definition pushFailsWorld :: world where
  "pushFailsWorld =
     exampleWorld\<lparr>environ := (\<lambda>v. ''somebody''),
                   fails := (\<lambda>h c. case c of Push r \<Rightarrow> Some (Error ''push rejected'') | _ \<Rightarrow> None)\<rparr>"


definition exampleArguments :: arguments where
  "exampleArguments =
     \<lparr>initRepo = [], pullRepo = [], addRepo = [], addFile = [], saveRepo = [], saveMsg = [],
      undoRepo = ''core'', listVerbose = False, statusRepo = []\<rparr>"

section \<open>Facts about the string functions\<close>

lemma TrimSuffix_append: "TrimSuffix (b @ x) x = b"
  by (simp add: TrimSuffix_def HasSuffix_def)

lemma ext_scan_suffix: "\<exists>pre. rev xs @ acc = pre @ ext_scan xs acc"
proof (induction xs arbitrary: acc)
  case Nil
  then show ?case by simp
next
  case (Cons c cs)
  show ?case
  proof (cases "IsPathSeparator c \<or> c = CHR ''.''")
    case True
    then show ?thesis by auto
  next
    case False
    then show ?thesis using Cons [of "c # acc"] by simp
  qed
qed

lemma ext_scan_shape:
  "CHR ''.'' \<notin> set acc \<Longrightarrow> Separator \<notin> set acc \<Longrightarrow>
   ext_scan xs acc = [] \<or>
   (\<exists>rest. ext_scan xs acc = CHR ''.'' # rest \<and> CHR ''.'' \<notin> set rest \<and> Separator \<notin> set rest)"
proof (induction xs arbitrary: acc)
  case Nil
  then show ?case by simp
next
  case (Cons c cs)
  show ?case
  proof (cases "IsPathSeparator c \<or> c = CHR ''.''")
    case True
    then show ?thesis using Cons.prems by auto
  next
    case False
    then have "CHR ''.'' \<notin> set (c # acc)" "Separator \<notin> set (c # acc)"
      using Cons.prems by (auto simp: IsPathSeparator_def)
    from Cons.IH [OF this] show ?thesis using False by simp
  qed
qed

lemma ext_scan_empty:
  "ext_scan xs acc = [] \<Longrightarrow> Separator \<notin> set xs \<Longrightarrow> CHR ''.'' \<notin> set xs"
  by (induction xs arbitrary: acc) (auto simp: IsPathSeparator_def split: if_splits)

lemma Ext_suffix: "\<exists>base. name = base @ Ext name"
  using ext_scan_suffix [of "rev name" "[]"] by (simp add: Ext_def)

lemma Ext_shape:
  "Ext name = [] \<or>
   (\<exists>rest. Ext name = CHR ''.'' # rest \<and> CHR ''.'' \<notin> set rest \<and> Separator \<notin> set rest)"
  using ext_scan_shape [of "[]" "rev name"] by (simp add: Ext_def)

lemma Ext_empty_no_dot:
  "Ext name = [] \<Longrightarrow> Separator \<notin> set name \<Longrightarrow> CHR ''.'' \<notin> set name"
  using ext_scan_empty [of "rev name" "[]"] by (simp add: Ext_def)

lemma TrimSuffix_Ext: "TrimSuffix name (Ext name) @ Ext name = name"
proof -
  obtain base where b: "name = base @ Ext name" using Ext_suffix by blast
  then have "TrimSuffix name (Ext name) = base" by (metis TrimSuffix_append)
  with b show ?thesis by simp
qed

lemma printBases_eq:
  "printBases names w = w\<lparr>stdout := stdout w @ map (\<lambda>n. TrimSuffix n (Ext n)) names\<rparr>"
  by (induction names arbitrary: w) (simp_all add: println_def)

text \<open>\<open>filepath.Base\<close> computes the final segment.\<close>

lemma segments_nonempty: "segments xs \<noteq> []"
  by (induction xs) (auto split: list.splits)

lemma segments_append_sep: "segments (xs @ Separator # ys) = segments xs @ segments ys"
proof (induction xs)
  case Nil
  then show ?case by simp
next
  case (Cons c cs)
  then show ?case using segments_nonempty [of cs] by (cases "segments cs") auto
qed

lemma segments_no_sep: "Separator \<notin> set xs \<Longrightarrow> segments xs = [xs]"
  by (induction xs) auto

lemma segments_all_sep: "set xs \<subseteq> {Separator} \<Longrightarrow> filter (\<lambda>s. s \<noteq> []) (segments xs) = []"
  by (induction xs) auto

lemma segments_seg_trail:
  assumes "seg \<noteq> []" "Separator \<notin> set seg" "set trail \<subseteq> {Separator}"
  shows "filter (\<lambda>s. s \<noteq> []) (segments (seg @ trail)) = [seg]"
proof (cases trail)
  case Nil
  then show ?thesis using assms by (simp add: segments_no_sep)
next
  case (Cons t ts)
  then have "t = Separator" "set ts \<subseteq> {Separator}" using assms(3) by auto
  then show ?thesis using assms Cons
    by (simp add: segments_append_sep segments_no_sep segments_all_sep)
qed

lemma finalSegment_decomp:
  assumes "seg \<noteq> []" "Separator \<notin> set seg" "set trail \<subseteq> {Separator}"
    and "pre = [] \<or> last pre = Separator"
  shows "finalSegment (pre @ seg @ trail) = seg"
proof (cases "pre = []")
  case True
  then show ?thesis using segments_seg_trail [OF assms(1-3)] by (simp add: finalSegment_def)
next
  case False
  then obtain p where p: "pre = p @ [Separator]"
    using assms(4) by (metis append_butlast_last_id)
  have "segments (pre @ seg @ trail) = segments p @ segments (seg @ trail)"
    using segments_append_sep [of p "seg @ trail"] p by simp
  then have "filter (\<lambda>s. s \<noteq> []) (segments (pre @ seg @ trail)) =
      filter (\<lambda>s. s \<noteq> []) (segments p) @ [seg]"
    using segments_seg_trail [OF assms(1-3)] by simp
  then show ?thesis unfolding finalSegment_def
    by (cases "filter (\<lambda>s. s \<noteq> []) (segments p)") simp_all
qed

lemma Base_decomp:
  assumes "seg \<noteq> []" "Separator \<notin> set seg" "set trail \<subseteq> {Separator}"
    and "pre = [] \<or> last pre = Separator"
  shows "Base (pre @ seg @ trail) = seg"
proof -
  have t: "dropWhile IsPathSeparator (rev trail @ rev seg @ rev pre) = rev seg @ rev pre"
  proof -
    have "\<forall>x \<in> set (rev trail). IsPathSeparator x"
      using assms(3) by (auto simp: IsPathSeparator_def)
    moreover have "\<not> IsPathSeparator (hd (rev seg @ rev pre))"
      using assms(1,2) by (cases seg rule: rev_cases) (auto simp: IsPathSeparator_def)
    moreover have "rev seg @ rev pre \<noteq> []" using assms(1) by simp
    ultimately show ?thesis
      by (metis (no_types, lifting) dropWhile_append2 dropWhile.simps(2) list.collapse)
  qed
  have s: "takeWhile (\<lambda>c. \<not> IsPathSeparator c) (rev seg @ rev pre) = rev seg"
  proof -
    have a: "\<forall>x \<in> set (rev seg). \<not> IsPathSeparator x"
      using assms(2) by (auto simp: IsPathSeparator_def)
    have "takeWhile (\<lambda>c. \<not> IsPathSeparator c) (rev pre) = []"
      using assms(4) by (cases pre rule: rev_cases) (auto simp: IsPathSeparator_def)
    moreover have "takeWhile (\<lambda>c. \<not> IsPathSeparator c) (rev seg @ rev pre) =
        rev seg @ takeWhile (\<lambda>c. \<not> IsPathSeparator c) (rev pre)"
      by (rule takeWhile_append2) (use a in auto)
    ultimately show ?thesis by simp
  qed
  show ?thesis using assms(1) by (simp add: Base_def Let_def t s)
qed

lemma Base_all_sep:
  assumes "url \<noteq> []" "set url \<subseteq> {Separator}"
  shows "Base url = [Separator]"
proof -
  have "\<forall>x \<in> set (rev url). IsPathSeparator x"
    using assms(2) by (auto simp: IsPathSeparator_def)
  then have d: "dropWhile IsPathSeparator (rev url) = []" by simp
  show ?thesis using assms(1) unfolding Base_def Let_def d by simp
qed

lemma url_decomp:
  assumes "\<not> set url \<subseteq> {Separator}"
  shows "\<exists>pre seg trail. url = pre @ seg @ trail \<and> seg \<noteq> [] \<and> Separator \<notin> set seg \<and>
           set trail \<subseteq> {Separator} \<and> (pre = [] \<or> last pre = Separator)"
proof -
  let ?trail = "rev (takeWhile IsPathSeparator (rev url))"
  let ?rest = "dropWhile IsPathSeparator (rev url)"
  let ?seg = "rev (takeWhile (\<lambda>c. \<not> IsPathSeparator c) ?rest)"
  let ?pre = "rev (dropWhile (\<lambda>c. \<not> IsPathSeparator c) ?rest)"
  have u: "url = ?pre @ ?seg @ ?trail"
  proof -
    have "?pre @ ?seg = rev ?rest"
      by (metis rev_append takeWhile_dropWhile_id)
    moreover have "rev ?rest @ ?trail = url"
      by (metis rev_append rev_rev_ident takeWhile_dropWhile_id)
    ultimately show ?thesis by (metis append_assoc)
  qed
  have rest: "?rest \<noteq> []"
    using assms by (auto simp: IsPathSeparator_def)
  then have "\<not> IsPathSeparator (hd ?rest)" by (metis hd_dropWhile)
  then have seg: "?seg \<noteq> []" using rest by (cases ?rest) auto
  have nosep: "Separator \<notin> set ?seg"
    using set_takeWhileD [of Separator "\<lambda>c. \<not> IsPathSeparator c" ?rest]
    by (auto simp: IsPathSeparator_def)
  have trail: "set ?trail \<subseteq> {Separator}"
    using set_takeWhileD [of _ IsPathSeparator "rev url"] by (auto simp: IsPathSeparator_def)
  have pre: "?pre = [] \<or> last ?pre = Separator"
  proof (cases "dropWhile (\<lambda>c. \<not> IsPathSeparator c) ?rest")
    case Nil
    then show ?thesis by simp
  next
    case (Cons a as)
    then have "IsPathSeparator a" using hd_dropWhile [of "\<lambda>c. \<not> IsPathSeparator c" ?rest] by auto
    then show ?thesis using Cons by (simp add: IsPathSeparator_def)
  qed
  from u seg nosep trail pre show ?thesis by blast
qed

lemma Base_is_finalSegment: "Base url = finalSegment url"
proof (cases "set url \<subseteq> {Separator}")
  case True
  show ?thesis
  proof (cases "url = []")
    case True
    then show ?thesis by (simp add: Base_def finalSegment_def)
  next
    case False
    then show ?thesis using True Base_all_sep [of url] segments_all_sep [of url]
      by (simp add: finalSegment_def)
  qed
next
  case False
  then obtain pre seg trail where "url = pre @ seg @ trail" "seg \<noteq> []" "Separator \<notin> set seg"
      "set trail \<subseteq> {Separator}" "pre = [] \<or> last pre = Separator"
    using url_decomp by blast
  then show ?thesis using Base_decomp finalSegment_decomp by metis
qed

section \<open>Facts about the status loop\<close>

lemma printStatus_eq:
  "printStatus st w = w\<lparr>stdout := stdout w @ map statusLine (filter shown st)\<rparr>"
proof (induction st arbitrary: w)
  case Nil
  then show ?case by simp
next
  case (Cons e rest)
  obtain f s where e: "e = (f, s)" by (cases e)
  show ?case unfolding e
    by (simp add: Cons println_def shown_def statusLine_def)
qed

lemma statusOf_unfold:
  "statusOf n w =
     (let p = repoPath n; h = calls w; w0 = w\<lparr>stdout := stdout w @ [n @ '':'']\<rparr>
      in case fails w h (NewStorage p) of
           Some e \<Rightarrow> (w0\<lparr>calls := h @ [NewStorage p]\<rparr>, Some e)
         | None \<Rightarrow>
      (case fails w (h @ [NewStorage p]) (GitOpen p dotfilesWorkdir) of
           Some e \<Rightarrow> (w0\<lparr>calls := h @ [NewStorage p, GitOpen p dotfilesWorkdir]\<rparr>, Some e)
         | None \<Rightarrow>
      (case fails w (h @ [NewStorage p, GitOpen p dotfilesWorkdir]) (GetWorktree p) of
           Some e \<Rightarrow> (w0\<lparr>calls := h @ [NewStorage p, GitOpen p dotfilesWorkdir, GetWorktree p]\<rparr>, Some e)
         | None \<Rightarrow>
      (case fails w (h @ [NewStorage p, GitOpen p dotfilesWorkdir, GetWorktree p]) (GetStatus p) of
           Some e \<Rightarrow> (w0\<lparr>calls := h @ repoCalls n\<rparr>, Some e)
         | None \<Rightarrow>
             (w\<lparr>calls := h @ repoCalls n,
                stdout := stdout w @ (n @ '':'') #
                  map statusLine (filter shown
                    (wtStatus w (h @ [NewStorage p, GitOpen p dotfilesWorkdir, GetWorktree p]) p))\<rparr>,
              None)))))"
  by (simp add: statusOf_def openWorkingRepo_def invoke_def println_def printStatus_eq
      repoPath_def repoCalls_def Let_def split: option.split)

lemma statusOf_result:
  assumes "statusOf n w = (w', r)"
  shows "\<exists>new body. w' = w\<lparr>calls := calls w @ NewStorage (repoPath n) # new,
                              stdout := stdout w @ (n @ '':'') # body\<rparr> \<and>
           storagesOpened new = [] \<and>
           (r = None \<longrightarrow> body = map statusLine (filter shown
              (wtStatus w (calls w @ [NewStorage (repoPath n), GitOpen (repoPath n) dotfilesWorkdir,
                 GetWorktree (repoPath n)]) (repoPath n)))) \<and>
           (\<forall>l \<in> set body. \<exists>e. shown e \<and> l = statusLine e)"
proof -
  let ?p = "repoPath n"
  let ?h = "calls w"
  consider
      (a) e where "fails w ?h (NewStorage ?p) = Some e"
    | (b) e where "fails w ?h (NewStorage ?p) = None"
        "fails w (?h @ [NewStorage ?p]) (GitOpen ?p dotfilesWorkdir) = Some e"
    | (c) e where "fails w ?h (NewStorage ?p) = None"
        "fails w (?h @ [NewStorage ?p]) (GitOpen ?p dotfilesWorkdir) = None"
        "fails w (?h @ [NewStorage ?p, GitOpen ?p dotfilesWorkdir]) (GetWorktree ?p) = Some e"
    | (d) e where "fails w ?h (NewStorage ?p) = None"
        "fails w (?h @ [NewStorage ?p]) (GitOpen ?p dotfilesWorkdir) = None"
        "fails w (?h @ [NewStorage ?p, GitOpen ?p dotfilesWorkdir]) (GetWorktree ?p) = None"
        "fails w (?h @ [NewStorage ?p, GitOpen ?p dotfilesWorkdir, GetWorktree ?p]) (GetStatus ?p) = Some e"
    | (e) "fails w ?h (NewStorage ?p) = None"
        "fails w (?h @ [NewStorage ?p]) (GitOpen ?p dotfilesWorkdir) = None"
        "fails w (?h @ [NewStorage ?p, GitOpen ?p dotfilesWorkdir]) (GetWorktree ?p) = None"
        "fails w (?h @ [NewStorage ?p, GitOpen ?p dotfilesWorkdir, GetWorktree ?p]) (GetStatus ?p) = None"
    by (metis option.exhaust)
  then show ?thesis
  proof cases
    case a
    with assms have "w' = w\<lparr>calls := ?h @ NewStorage ?p # [], stdout := stdout w @ (n @ '':'') # []\<rparr>"
      and "r = Some e"
      by (auto simp: statusOf_unfold Let_def)
    then show ?thesis by (intro exI [of _ "[]"] conjI) simp_all
  next
    case b
    with assms have "w' = w\<lparr>calls := ?h @ NewStorage ?p # [GitOpen ?p dotfilesWorkdir],
        stdout := stdout w @ (n @ '':'') # []\<rparr>" and "r = Some e"
      by (auto simp: statusOf_unfold Let_def)
    then show ?thesis
      by (intro exI [of _ "[GitOpen ?p dotfilesWorkdir]"] exI [of _ "[]"] conjI) simp_all
  next
    case c
    with assms have "w' = w\<lparr>calls := ?h @ NewStorage ?p # [GitOpen ?p dotfilesWorkdir, GetWorktree ?p],
        stdout := stdout w @ (n @ '':'') # []\<rparr>" and "r = Some e"
      by (auto simp: statusOf_unfold Let_def)
    then show ?thesis
      by (intro exI [of _ "[GitOpen ?p dotfilesWorkdir, GetWorktree ?p]"] exI [of _ "[]"] conjI) simp_all
  next
    case d
    with assms have "w' = w\<lparr>calls := ?h @ NewStorage ?p #
          [GitOpen ?p dotfilesWorkdir, GetWorktree ?p, GetStatus ?p],
        stdout := stdout w @ (n @ '':'') # []\<rparr>" and "r = Some e"
      by (auto simp: statusOf_unfold Let_def repoCalls_def)
    then show ?thesis
      by (intro exI [of _ "[GitOpen ?p dotfilesWorkdir, GetWorktree ?p, GetStatus ?p]"]
          exI [of _ "[]"] conjI) simp_all
  next
    case e
    let ?body = "map statusLine (filter shown
        (wtStatus w (?h @ [NewStorage ?p, GitOpen ?p dotfilesWorkdir, GetWorktree ?p]) ?p))"
    from e assms have "w' = w\<lparr>calls := ?h @ NewStorage ?p #
          [GitOpen ?p dotfilesWorkdir, GetWorktree ?p, GetStatus ?p],
        stdout := stdout w @ (n @ '':'') # ?body\<rparr>"
      by (auto simp: statusOf_unfold Let_def repoCalls_def)
    then show ?thesis
      by (intro exI [of _ "[GitOpen ?p dotfilesWorkdir, GetWorktree ?p, GetStatus ?p]"]
          exI [of _ ?body] conjI) auto
  qed
qed


lemma storagesOpened_append:
  "storagesOpened (a @ b) = storagesOpened a @ storagesOpened b"
  by (induction a rule: storagesOpened.induct) auto

lemma statusLoop_append:
  "statusLoop (xs @ ys) w =
     (case statusLoop xs w of
        (w', Some e) \<Rightarrow> (w', Some e)
      | (w', None) \<Rightarrow> statusLoop ys w')"
  by (induction xs arbitrary: w) (auto split: prod.splits option.splits)

lemma statusLoop_trace:
  "statusLoop names w = (w', r) \<Longrightarrow>
   \<exists>new out. w' = w\<lparr>calls := calls w @ new, stdout := stdout w @ out\<rparr> \<and>
     prefix (storagesOpened new) (map repoPath names) \<and>
     (r = None \<longrightarrow>
        storagesOpened new = map repoPath names \<and>
        (\<exists>bodies. length bodies = length names \<and>
           out = concat (map2 (\<lambda>n b. (n @ '':'') # b) names bodies) \<and>
           (\<forall>b \<in> set bodies. \<forall>l \<in> set b. \<exists>e. shown e \<and> l = statusLine e)))"
proof (induction names arbitrary: w w' r)
  case Nil
  then have "w' = w\<lparr>calls := calls w @ [], stdout := stdout w @ []\<rparr>" "r = None" by auto
  then show ?case by (intro exI [of _ "[]"] conjI) simp_all
next
  case (Cons n rest)
  obtain w1 r1 where one: "statusOf n w = (w1, r1)" by (cases "statusOf n w")
  from statusOf_result [OF one] obtain new1 body1 where
    w1: "w1 = w\<lparr>calls := calls w @ NewStorage (repoPath n) # new1,
                  stdout := stdout w @ (n @ '':'') # body1\<rparr>"
    and so1: "storagesOpened new1 = []"
    and b1: "\<forall>l \<in> set body1. \<exists>e. shown e \<and> l = statusLine e"
    by blast
  show ?case
  proof (cases r1)
    case (Some e)
    with one Cons.prems have "w' = w1" "r = Some e" by auto
    with w1 so1 show ?thesis
      by (intro exI [of _ "NewStorage (repoPath n) # new1"] exI [of _ "(n @ '':'') # body1"] conjI)
         simp_all
  next
    case None
    with one Cons.prems have rest: "statusLoop rest w1 = (w', r)" by simp
    from Cons.IH [OF rest] obtain new2 out2 where
      w': "w' = w1\<lparr>calls := calls w1 @ new2, stdout := stdout w1 @ out2\<rparr>"
      and p2: "prefix (storagesOpened new2) (map repoPath rest)"
      and ok2: "r = None \<longrightarrow>
        storagesOpened new2 = map repoPath rest \<and>
        (\<exists>bodies. length bodies = length rest \<and>
           out2 = concat (map2 (\<lambda>n b. (n @ '':'') # b) rest bodies) \<and>
           (\<forall>b \<in> set bodies. \<forall>l \<in> set b. \<exists>e. shown e \<and> l = statusLine e))"
      by blast
    let ?new = "NewStorage (repoPath n) # new1 @ new2"
    let ?out = "(n @ '':'') # body1 @ out2"
    have eq: "w' = w\<lparr>calls := calls w @ ?new, stdout := stdout w @ ?out\<rparr>"
      using w' w1 by simp
    have so: "storagesOpened ?new = repoPath n # storagesOpened new2"
      using so1 by (simp add: storagesOpened_append)
    have pre: "prefix (storagesOpened ?new) (map repoPath (n # rest))"
      using p2 so by simp
    have fin: "r = None \<longrightarrow>
        storagesOpened ?new = map repoPath (n # rest) \<and>
        (\<exists>bodies. length bodies = length (n # rest) \<and>
           ?out = concat (map2 (\<lambda>n b. (n @ '':'') # b) (n # rest) bodies) \<and>
           (\<forall>b \<in> set bodies. \<forall>l \<in> set b. \<exists>e. shown e \<and> l = statusLine e))"
    proof
      assume "r = None"
      with ok2 obtain bodies where bs: "storagesOpened new2 = map repoPath rest"
        "length bodies = length rest"
        "out2 = concat (map2 (\<lambda>n b. (n @ '':'') # b) rest bodies)"
        "\<forall>b \<in> set bodies. \<forall>l \<in> set b. \<exists>e. shown e \<and> l = statusLine e"
        by blast
      have C: "length (body1 # bodies) = length (n # rest) \<and>
           ?out = concat (map2 (\<lambda>n b. (n @ '':'') # b) (n # rest) (body1 # bodies)) \<and>
           (\<forall>b \<in> set (body1 # bodies). \<forall>l \<in> set b. \<exists>e. shown e \<and> l = statusLine e)"
        using bs b1 by simp
      show "storagesOpened ?new = map repoPath (n # rest) \<and>
        (\<exists>bodies. length bodies = length (n # rest) \<and>
           ?out = concat (map2 (\<lambda>n b. (n @ '':'') # b) (n # rest) bodies) \<and>
           (\<forall>b \<in> set bodies. \<forall>l \<in> set b. \<exists>e. shown e \<and> l = statusLine e))"
      proof (intro conjI)
        show "storagesOpened ?new = map repoPath (n # rest)" using so bs(1) by simp
        show "\<exists>bodies. length bodies = length (n # rest) \<and>
           ?out = concat (map2 (\<lambda>n b. (n @ '':'') # b) (n # rest) bodies) \<and>
           (\<forall>b \<in> set bodies. \<forall>l \<in> set b. \<exists>e. shown e \<and> l = statusLine e)"
          by (intro exI [of _ "body1 # bodies"]) (rule C)
      qed
    qed
    from eq pre fin show ?thesis by blast
  qed
qed


lemma TrimSuffix_other: "\<not> HasSuffix f x \<Longrightarrow> TrimSuffix f x = f"
  by (simp add: TrimSuffix_def)


lemma statusLoop_Cons_trace:
  assumes "statusLoop (n # ns) w = (w', r)"
  shows "\<exists>rest out. calls w' = calls w @ NewStorage (repoPath n) # rest \<and>
           stdout w' = stdout w @ (n @ '':'') # out"
proof -
  obtain w1 r1 where one: "statusOf n w = (w1, r1)" by (cases "statusOf n w")
  from statusOf_result [OF one] obtain new1 body1 where
    w1: "w1 = w\<lparr>calls := calls w @ NewStorage (repoPath n) # new1,
                  stdout := stdout w @ (n @ '':'') # body1\<rparr>"
    by blast
  show ?thesis
  proof (cases r1)
    case (Some e)
    with one assms have "w' = w1" by auto
    with w1 show ?thesis by simp
  next
    case None
    with one assms have "statusLoop ns w1 = (w', r)" by simp
    from statusLoop_trace [OF this] obtain new2 out2 where
      "w' = w1\<lparr>calls := calls w1 @ new2, stdout := stdout w1 @ out2\<rparr>" by blast
    with w1 show ?thesis by simp
  qed
qed

lemma count_list_distinct:
  "distinct xs \<Longrightarrow> count_list xs x = (if x \<in> set xs then 1 else 0)"
  by (induction xs) auto

lemma statusLine_inj: "statusLine a = statusLine b \<Longrightarrow> fst a = fst b"
  by (simp add: statusLine_def)

lemma distinct_statusLines:
  assumes "distinct (map fst st)"
  shows "distinct (map statusLine (filter shown st))"
proof -
  have "inj_on fst (set st)" "distinct st"
    using assms by (simp_all add: distinct_map)
  then have "inj_on statusLine (set (filter shown st))"
    by (auto simp: inj_on_def dest!: statusLine_inj)
  moreover have "distinct (filter shown st)" using \<open>distinct st\<close> by simp
  ultimately show ?thesis by (simp add: distinct_map)
qed

lemma statusLine_shown:
  assumes "distinct (map fst st)" "e \<in> set st"
  shows "statusLine e \<in> set (map statusLine (filter shown st)) \<longleftrightarrow> shown e"
proof
  assume "statusLine e \<in> set (map statusLine (filter shown st))"
  then obtain e' where e': "e' \<in> set st" "shown e'" "statusLine e = statusLine e'" by auto
  have "inj_on fst (set st)" using assms(1) by (simp add: distinct_map)
  with e' assms(2) statusLine_inj [of e e'] have "e = e'" by (auto simp: inj_on_def)
  with e' show "shown e" by simp
next
  assume "shown e"
  with assms(2) show "statusLine e \<in> set (map statusLine (filter shown st))" by auto
qed

lemma example_core_path: "Join dotfilesBasedir (''core'' @ ''.git'') = ''dotfiles/core.git''"
  by (simp add: Join_def Clean_def clean_loop.simps dotfilesBasedir_def IsPathSeparator_def Separator_def)

lemma example_notes_path: "Join dotfilesBasedir (''notes.txt'' @ ''.git'') = ''dotfiles/notes.txt.git''"
  by (simp add: Join_def Clean_def clean_loop.simps dotfilesBasedir_def IsPathSeparator_def Separator_def)

lemma example_statusOf_core:
  "statusOf ''core'' (exampleWorld\<lparr>calls := h\<rparr>) =
     (exampleWorld\<lparr>calls := h @ repoCalls ''core'', stdout := [''core:'', ''[M] .bashrc'']\<rparr>, None)"
  by (simp add: statusOf_unfold Let_def exampleWorld_def shown_def statusLine_def
      Modified_def Added_def Deleted_def Unmodified_def)

section \<open>Facts about stopping at the first error\<close>

lemma firstErrorStops_append:
  "firstErrorStops f h xs None \<Longrightarrow> firstErrorStops f (h @ xs) ys r \<Longrightarrow>
   firstErrorStops f h (xs @ ys) r"
proof (induction xs arbitrary: h)
  case Nil
  then show ?case by simp
next
  case (Cons c cs)
  from Cons.prems(1) have ok: "f h c = None" and rest: "firstErrorStops f (h @ [c]) cs None"
    by (auto split: option.splits)
  from Cons.prems(2) have "firstErrorStops f ((h @ [c]) @ cs) ys r" by simp
  from Cons.IH [OF rest this] ok show ?case by simp
qed

lemma stops_seq:
  assumes "stopsAtFirstError w (w1, None)" "fails w1 = fails w" "stopsAtFirstError w1 (w2, r)"
  shows "stopsAtFirstError w (w2, r)"
proof -
  from assms(1) obtain n1 where c1: "calls w1 = calls w @ n1"
    by (metis append_take_drop_id fst_conv stopsAtFirstError_def)
  from assms(3) obtain n2 where c2: "calls w2 = calls w1 @ n2"
    by (metis append_take_drop_id fst_conv stopsAtFirstError_def)
  have s1: "firstErrorStops (fails w) (calls w) n1 None"
    using assms(1) c1 by (simp add: stopsAtFirstError_def)
  have s2: "firstErrorStops (fails w) (calls w @ n1) n2 r"
    using assms(3) assms(2) c1 c2 by (simp add: stopsAtFirstError_def)
  have "firstErrorStops (fails w) (calls w) (n1 @ n2) r"
    by (rule firstErrorStops_append [OF s1 s2])
  then show ?thesis using c1 c2 by (simp add: stopsAtFirstError_def)
qed

lemma stops_return: "calls w' = calls w \<Longrightarrow> stopsAtFirstError w (w', r)"
  by (simp add: stopsAtFirstError_def)

lemma stops_invoke:
  "calls w0 = calls w \<Longrightarrow> fails w0 = fails w \<Longrightarrow> stopsAtFirstError w (invoke c w0)"
  by (simp add: stopsAtFirstError_def invoke_def split: option.split)

lemma stops_then:
  assumes "stopsAtFirstError w g" "fails (fst g) = fails w"
    and "\<And>w1. stopsAtFirstError w1 (K w1)"
  shows "stopsAtFirstError w (case g of (w1, Some e) \<Rightarrow> (w1, Some e) | (w1, None) \<Rightarrow> K w1)"
proof (cases g)
  case (Pair w1 r1)
  show ?thesis
  proof (cases r1)
    case None
    have "stopsAtFirstError w (fst (K w1), snd (K w1))"
      by (rule stops_seq [of w w1]) (use assms Pair None in simp_all)
    then show ?thesis using Pair None by simp
  next
    case (Some e)
    then show ?thesis using assms(1) Pair by simp
  qed
qed

lemma stops_invoke_then:
  assumes "calls w0 = calls w" "fails w0 = fails w" "\<And>w1. stopsAtFirstError w1 (K w1)"
  shows "stopsAtFirstError w
           (case invoke c w0 of (w1, Some e) \<Rightarrow> (w1, Some e) | (w1, None) \<Rightarrow> K w1)"
proof (rule stops_then [where g = "invoke c w0"])
  show "stopsAtFirstError w (invoke c w0)" using assms(1,2) by (rule stops_invoke)
  show "fails (fst (invoke c w0)) = fails w" using assms(2) by (simp add: invoke_def)
  show "\<And>w1. stopsAtFirstError w1 (K w1)" by (rule assms(3))
qed

lemma openWorkingRepo_result:
  "openWorkingRepo n w0 = (w1, res) \<Longrightarrow> fails w1 = fails w0 \<and> (\<forall>p. res = Inr p \<longrightarrow> p = repoPath n)"
  by (auto simp: openWorkingRepo_def invoke_def Let_def repoPath_def split: option.splits)

lemma stops_open:
  assumes "calls w0 = calls w" "fails w0 = fails w"
  shows "stopsAtFirstError w
           (case openWorkingRepo n w0 of (w1, Inl e) \<Rightarrow> (w1, Some e) | (w1, Inr p) \<Rightarrow> (w1, None))"
  using assms
  by (simp add: stopsAtFirstError_def openWorkingRepo_def invoke_def Let_def split: option.split)

lemma stops_open_then:
  assumes "calls w0 = calls w" "fails w0 = fails w" "\<And>p w1. stopsAtFirstError w1 (K p w1)"
  shows "stopsAtFirstError w
           (case openWorkingRepo n w0 of (w1, Inl e) \<Rightarrow> (w1, Some e) | (w1, Inr p) \<Rightarrow> K p w1)"
proof -
  let ?G = "\<lambda>w0. case openWorkingRepo n w0 of (w1, Inl e) \<Rightarrow> (w1, Some e) | (w1, Inr p) \<Rightarrow> (w1, None)"
  obtain w1 res where o: "openWorkingRepo n w0 = (w1, res)" by (cases "openWorkingRepo n w0")
  have f: "fails (fst (?G w0)) = fails w"
    using openWorkingRepo_result [OF o] o assms(2) by (simp split: sum.split)
  have "stopsAtFirstError w
      (case ?G w0 of (w1, Some e) \<Rightarrow> (w1, Some e) | (w1, None) \<Rightarrow> K (repoPath n) w1)"
    by (rule stops_then [where g = "?G w0" and K = "K (repoPath n)"])
       (rule stops_open [OF assms(1,2)], rule f, rule assms(3))
  moreover have "(case ?G w0 of (w1, Some e) \<Rightarrow> (w1, Some e) | (w1, None) \<Rightarrow> K (repoPath n) w1) =
      (case openWorkingRepo n w0 of (w1, Inl e) \<Rightarrow> (w1, Some e) | (w1, Inr p) \<Rightarrow> K p w1)"
    using openWorkingRepo_result [OF o] o by (cases res) simp_all
  ultimately show ?thesis by simp
qed

lemma stops_author_then:
  assumes "\<And>author. stopsAtFirstError w (K author)"
  shows "stopsAtFirstError w
           (case getAuthor w of (author, Some e) \<Rightarrow> (w, Some e) | (author, None) \<Rightarrow> K author)"
  using assms by (simp add: stops_return split: prod.split option.split)

lemma stops_Pull: "stopsAtFirstError w (executePull n w)"
  unfolding executePull_def getAuthMethod_def
  by (intro stops_open_then stops_invoke_then stops_invoke) simp_all

lemma stops_Save: "stopsAtFirstError w (executeSave n m w)"
  unfolding executeSave_def getAuthMethod_def
  by (intro stops_open_then stops_invoke_then stops_author_then stops_invoke) simp_all

lemma stops_Add: "stopsAtFirstError w (executeAdd n f w)"
  unfolding executeAdd_def Let_def
  by (intro stops_open_then stops_invoke_then stops_invoke) (simp_all add: println_def)

lemma stops_Init: "stopsAtFirstError w (executeInit u w)"
  unfolding executeInit_def baseName_def Let_def getAuthMethod_def prod.case option.case
  by (intro stops_invoke_then stops_invoke) (simp_all add: println_def)

lemma stops_List: "stopsAtFirstError w (executeList v w)"
proof (cases v)
  case True
  then show ?thesis by (simp add: executeList_def stops_return)
next
  case False
  then show ?thesis unfolding executeList_def
    by (simp del: printBases.simps)
       (intro stops_invoke_then stops_return, simp_all add: printBases_eq)
qed

lemma stops_statusOf: "stopsAtFirstError w (statusOf n w)"
  unfolding statusOf_def Let_def
  by (intro stops_open_then stops_invoke_then stops_return)
     (simp_all add: println_def printStatus_eq)

lemma fails_statusOf: "fails (fst (statusOf n w)) = fails w"
proof -
  obtain w' r where "statusOf n w = (w', r)" by (cases "statusOf n w")
  from statusOf_result [OF this] this show ?thesis by auto
qed

lemma stops_statusLoop: "stopsAtFirstError w (statusLoop names w)"
proof (induction names arbitrary: w)
  case Nil
  then show ?case by (simp add: stops_return)
next
  case (Cons n rest)
  show ?case unfolding statusLoop.simps
    by (intro stops_then stops_statusOf fails_statusOf Cons.IH)
qed

lemma stops_Status: "stopsAtFirstError w (executeStatus n w)"
proof (cases "n = []")
  case True
  have e: "executeStatus n w =
      (case invoke (ReadDir dotfilesBasedir) w of
         (w1, Some e) \<Rightarrow> (w1, Some e)
       | (w1, None) \<Rightarrow>
           statusLoop (map (\<lambda>f. TrimSuffix f ''.git'') (dirEntries w (calls w) dotfilesBasedir)) w1)"
    using True by (simp add: executeStatus_def)
  show ?thesis unfolding e
    by (intro stops_invoke_then stops_statusLoop) simp_all
next
  case False
  show ?thesis unfolding executeStatus_def using False
    by (simp only: if_False stops_statusLoop)
qed

section \<open>Facts about cleaned paths and the add command\<close>

lemma noDoubleSep_iff:
  "noDoubleSep xs \<longleftrightarrow>
     (\<forall>i. Suc i < length xs \<longrightarrow> \<not> (xs ! i = Separator \<and> xs ! Suc i = Separator))"
proof (induction xs rule: noDoubleSep.induct)
  case (1 a b cs)
  have "(\<forall>i. Suc i < length (a # b # cs) \<longrightarrow>
           \<not> ((a # b # cs) ! i = Separator \<and> (a # b # cs) ! Suc i = Separator)) \<longleftrightarrow>
        \<not> (a = Separator \<and> b = Separator) \<and>
        (\<forall>j. Suc j < length (b # cs) \<longrightarrow>
           \<not> ((b # cs) ! j = Separator \<and> (b # cs) ! Suc j = Separator))"
    (is "?L \<longleftrightarrow> ?A \<and> ?R")
  proof
    assume l: ?L
    have ?A using l [rule_format, of 0] by simp
    moreover have ?R
    proof (intro allI impI)
      fix j assume "Suc j < length (b # cs)"
      then show "\<not> ((b # cs) ! j = Separator \<and> (b # cs) ! Suc j = Separator)"
        using l [rule_format, of "Suc j"] by simp
    qed
    ultimately show "?A \<and> ?R" ..
  next
    assume r: "?A \<and> ?R"
    show ?L
    proof (intro allI impI)
      fix i assume i: "Suc i < length (a # b # cs)"
      show "\<not> ((a # b # cs) ! i = Separator \<and> (a # b # cs) ! Suc i = Separator)"
      proof (cases i)
        case 0
        then show ?thesis using r by simp
      next
        case (Suc j)
        then show ?thesis using r i by simp
      qed
    qed
  qed
  with 1 show ?case by simp
qed simp_all

lemma noDoubleSep_take: "noDoubleSep xs \<Longrightarrow> noDoubleSep (take n xs)"
  unfolding noDoubleSep_iff by simp

lemma noDoubleSep_Cons:
  "noDoubleSep (a # xs) \<longleftrightarrow> (xs = [] \<or> \<not> (a = Separator \<and> hd xs = Separator)) \<and> noDoubleSep xs"
  by (cases xs) auto

lemma noDoubleSep_append:
  "noDoubleSep (xs @ ys) \<longleftrightarrow>
     noDoubleSep xs \<and> noDoubleSep ys \<and>
     (xs \<noteq> [] \<and> ys \<noteq> [] \<longrightarrow> \<not> (last xs = Separator \<and> hd ys = Separator))"
proof (induction xs)
  case Nil
  then show ?case by simp
next
  case (Cons a xs)
  show ?case
  proof (cases "xs = []")
    case True
    then show ?thesis by (cases ys) auto
  next
    case False
    then have "hd (xs @ ys) = hd xs" by simp
    then show ?thesis using Cons False by (simp add: noDoubleSep_Cons del: noDoubleSep.simps)
  qed
qed

lemma backtrack_take:
  "d \<le> w \<Longrightarrow>
   \<exists>w'. backtrack buf w d = take w' buf \<and> d \<le> w' \<and> w' \<le> w \<and>
        (w' = d \<or> IsPathSeparator (buf ! w'))"
proof (induction buf w d rule: backtrack.induct)
  case (1 buf w dotdot)
  show ?case
  proof (cases "w > dotdot \<and> \<not> IsPathSeparator (buf ! w)")
    case True
    then have "dotdot \<le> w - 1" by auto
    from "1.IH" [OF True this] obtain w' where
      "backtrack buf (w - 1) dotdot = take w' buf" "dotdot \<le> w'" "w' \<le> w - 1"
      "w' = dotdot \<or> IsPathSeparator (buf ! w')" by blast
    moreover have "backtrack buf w dotdot = backtrack buf (w - 1) dotdot"
      using True by (subst backtrack.simps) simp
    ultimately show ?thesis by (intro exI [of _ w']) auto
  next
    case False
    then have "backtrack buf w dotdot = take w buf"
      by (subst backtrack.simps) auto
    then show ?thesis using False "1.prems" by (intro exI [of _ w]) auto
  qed
qed



lemma noDoubleSep_adjacent:
  "noDoubleSep xs \<Longrightarrow> Suc i < length xs \<Longrightarrow> xs ! Suc i = Separator \<Longrightarrow> xs ! i \<noteq> Separator"
  unfolding noDoubleSep_iff by blast

lemma backtrack_inv:
  assumes inv: "cleanInv rooted out dotdot" and lt: "dotdot < length out"
  shows "cleanInv rooted (backtrack out (length out - 1) dotdot) dotdot"
proof -
  from lt have "dotdot \<le> length out - 1" by simp
  from backtrack_take [OF this] obtain w' where
    b: "backtrack out (length out - 1) dotdot = take w' out"
    and w: "dotdot \<le> w'" "w' \<le> length out - 1"
    and s: "w' = dotdot \<or> IsPathSeparator (out ! w')"
    by blast
  have len: "w' < length out" using w lt by simp
  have n: "noDoubleSep (take w' out)" using inv by (simp add: cleanInv_def noDoubleSep_take)
  have d: "dotdot \<le> length (take w' out)" using w len by simp
  have l: "take w' out \<noteq> [] \<and> last (take w' out) = Separator \<longrightarrow>
      rooted \<and> length (take w' out) = 1"
  proof
    assume a: "take w' out \<noteq> [] \<and> last (take w' out) = Separator"
    then have pos: "0 < w'" by (cases w') auto
    have "last (take w' out) = take w' out ! (length (take w' out) - 1)"
      using a by (intro last_conv_nth) simp
    also have "\<dots> = out ! (w' - 1)" using pos len by (simp add: min_def)
    finally have la: "last (take w' out) = out ! (w' - 1)" .
    show "rooted \<and> length (take w' out) = 1"
    proof (cases "w' = dotdot")
      case True
      with inv pos la a have "rooted \<and> dotdot = 1" by (simp add: cleanInv_def)
      with True len show ?thesis by simp
    next
      case False
      with s have "out ! w' = Separator" by (simp add: IsPathSeparator_def)
      moreover have "noDoubleSep out" using inv by (simp add: cleanInv_def)
      ultimately have "out ! (w' - 1) \<noteq> Separator"
        using noDoubleSep_adjacent [of out "w' - 1"] pos len by simp
      with la a show ?thesis by simp
    qed
  qed
  have k: "0 < dotdot \<and> take w' out ! (dotdot - 1) = Separator \<longrightarrow> rooted \<and> dotdot = 1"
  proof
    assume a: "0 < dotdot \<and> take w' out ! (dotdot - 1) = Separator"
    then have "dotdot - 1 < w'" using w by auto
    then have "take w' out ! (dotdot - 1) = out ! (dotdot - 1)" by (rule nth_take)
    with a inv show "rooted \<and> dotdot = 1" by (simp add: cleanInv_def)
  qed
  from n d l k show ?thesis unfolding b cleanInv_def by blast
qed


lemma dot_not_sep: "CHR ''.'' \<noteq> Separator"
  by (simp add: Separator_def)

lemma cleanInv_dotdot:
  assumes inv: "cleanInv rooted out dotdot" and nr: "\<not> rooted"
    and x: "x = (if 0 < length out then out @ [Separator] else out) @ ''..''"
  shows "cleanInv rooted x (length x)"
proof -
  have n: "noDoubleSep out" and l: "out \<noteq> [] \<longrightarrow> last out \<noteq> Separator"
    using inv nr by (auto simp: cleanInv_def)
  have "noDoubleSep x"
    unfolding x using n l dot_not_sep by (auto simp: noDoubleSep_append)
  moreover have "last x = CHR ''.''" "x \<noteq> []" unfolding x by simp_all
  moreover have "x ! (length x - 1) = CHR ''.''"
    using last_conv_nth [of x] \<open>last x = CHR ''.''\<close> \<open>x \<noteq> []\<close> by simp
  ultimately show ?thesis using dot_not_sep by (simp add: cleanInv_def)
qed

lemma noDoubleSep_no_sep: "Separator \<notin> set xs \<Longrightarrow> noDoubleSep xs"
  by (induction xs rule: noDoubleSep.induct) auto

lemma cleanInv_element:
  assumes inv: "cleanInv rooted out dotdot" and c: "\<not> IsPathSeparator c"
    and x: "x = (if rooted \<and> length out \<noteq> 1 \<or> \<not> rooted \<and> length out \<noteq> 0
                 then out @ [Separator] else out)"
  shows "cleanInv rooted (x @ c # takeWhile (\<lambda>x. \<not> IsPathSeparator x) cs) dotdot"
proof -
  let ?e = "c # takeWhile (\<lambda>x. \<not> IsPathSeparator x) cs"
  have e: "\<forall>y \<in> set ?e. y \<noteq> Separator"
    using c set_takeWhileD [of _ "\<lambda>x. \<not> IsPathSeparator x" cs] by (auto simp: IsPathSeparator_def)
  have ne: "noDoubleSep ?e"
    by (rule noDoubleSep_no_sep) (use e in blast)
  have n: "noDoubleSep out" and d: "dotdot \<le> length out"
    and l: "out \<noteq> [] \<and> last out = Separator \<longrightarrow> rooted \<and> length out = 1"
    and k: "0 < dotdot \<and> out ! (dotdot - 1) = Separator \<longrightarrow> rooted \<and> dotdot = 1"
    using inv by (auto simp: cleanInv_def)
  have nx: "noDoubleSep x" unfolding x using n l by (auto simp: noDoubleSep_append)
  have hd: "hd ?e \<noteq> Separator" using c by (simp add: IsPathSeparator_def)
  have "noDoubleSep (x @ ?e)" using nx ne hd by (simp add: noDoubleSep_append del: noDoubleSep.simps)
  moreover have "dotdot \<le> length (x @ ?e)" using d unfolding x by simp
  moreover have "last (x @ ?e) \<noteq> Separator"
  proof -
    have "last (x @ ?e) = last ?e" by simp
    moreover have "last ?e \<in> set ?e" by (rule last_in_set) simp
    ultimately show ?thesis using e by metis
  qed
  moreover have "0 < dotdot \<Longrightarrow> (x @ ?e) ! (dotdot - 1) = out ! (dotdot - 1)"
  proof -
    assume "0 < dotdot"
    then have i: "dotdot - 1 < length out" using d by auto
    then have "dotdot - 1 < length x" unfolding x by simp
    then have "(x @ ?e) ! (dotdot - 1) = x ! (dotdot - 1)" by (simp add: nth_append)
    also have "\<dots> = out ! (dotdot - 1)" using i unfolding x by (simp add: nth_append)
    finally show ?thesis .
  qed
  ultimately show ?thesis using k unfolding cleanInv_def by auto
qed


lemma clean_loop_inv:
  "cleanInv rooted out dotdot \<Longrightarrow> \<exists>d. cleanInv rooted (clean_loop rooted path out dotdot) d"
proof (induction rooted path out dotdot rule: clean_loop.induct)
  case (1 rooted out dotdot)
  then show ?case by (subst clean_loop.simps) blast
next
  case (2 rooted c cs out dotdot)
  let ?dot = "c = CHR ''.'' \<and> (cs = [] \<or> IsPathSeparator (hd cs))"
  let ?dotdot = "c = CHR ''.'' \<and> hd cs = CHR ''.'' \<and> (tl cs = [] \<or> IsPathSeparator (hd (tl cs)))"
  note inv = \<open>cleanInv rooted out dotdot\<close>
  consider (sep) "IsPathSeparator c"
    | (dot) "\<not> IsPathSeparator c" ?dot
    | (pop) "\<not> IsPathSeparator c" "\<not> ?dot" ?dotdot "dotdot < length out"
    | (up) "\<not> IsPathSeparator c" "\<not> ?dot" ?dotdot "\<not> dotdot < length out" "\<not> rooted"
    | (top) "\<not> IsPathSeparator c" "\<not> ?dot" ?dotdot "\<not> dotdot < length out" "\<not> \<not> rooted"
    | (elem) "\<not> IsPathSeparator c" "\<not> ?dot" "\<not> ?dotdot"
    by blast
  then show ?case
  proof cases
    case sep
    have a: "IsPathSeparator c = True" using sep by simp
    have eq: "clean_loop rooted (c # cs) out dotdot = clean_loop rooted cs out dotdot"
      by (subst clean_loop.simps) (simp only: a if_True)
    show ?thesis unfolding eq by (rule "2.IH"(1) [OF sep inv])
  next
    case dot
    have a: "IsPathSeparator c = False" and d: "?dot = True" using dot by simp_all
    have eq: "clean_loop rooted (c # cs) out dotdot = clean_loop rooted cs out dotdot"
      by (subst clean_loop.simps) (simp only: a d if_True if_False)
    show ?thesis unfolding eq by (rule "2.IH"(2) [OF dot inv])
  next
    case pop
    have a: "IsPathSeparator c = False" and d: "?dot = False" and dd: "?dotdot = True"
      and lt: "(dotdot < length out) = True"
      using pop by simp_all
    have eq: "clean_loop rooted (c # cs) out dotdot =
        clean_loop rooted (tl cs) (backtrack out (length out - 1) dotdot) dotdot"
      by (subst clean_loop.simps) (simp only: a d dd lt if_True if_False)
    show ?thesis unfolding eq by (rule "2.IH"(3) [OF pop backtrack_inv [OF inv pop(4)]])
  next
    case up
    let ?x = "(if 0 < length out then out @ [Separator] else out) @ ''..''"
    have a: "IsPathSeparator c = False" and d: "?dot = False" and dd: "?dotdot = True"
      and lt: "(dotdot < length out) = False" and r: "(\<not> rooted) = True"
      using up by simp_all
    have eq: "clean_loop rooted (c # cs) out dotdot = clean_loop rooted (tl cs) ?x (length ?x)"
      by (subst clean_loop.simps) (simp only: a d dd lt r if_True if_False Let_def)
    show ?thesis unfolding eq by (rule "2.IH"(4) [OF up refl cleanInv_dotdot [OF inv up(5) refl]])
  next
    case top
    have a: "IsPathSeparator c = False" and d: "?dot = False" and dd: "?dotdot = True"
      and lt: "(dotdot < length out) = False" and r: "(\<not> rooted) = False"
      using top by simp_all
    have eq: "clean_loop rooted (c # cs) out dotdot = clean_loop rooted (tl cs) out dotdot"
      by (subst clean_loop.simps) (simp only: a d dd lt r if_True if_False)
    show ?thesis unfolding eq by (rule "2.IH"(5) [OF top inv])
  next
    case elem
    let ?x = "(if rooted \<and> length out \<noteq> 1 \<or> \<not> rooted \<and> length out \<noteq> 0
               then out @ [Separator] else out)"
    have a: "IsPathSeparator c = False" and d: "?dot = False" and dd: "?dotdot = False"
      using elem by simp_all
    have eq: "clean_loop rooted (c # cs) out dotdot =
        clean_loop rooted (dropWhile (\<lambda>x. \<not> IsPathSeparator x) cs)
          (?x @ c # takeWhile (\<lambda>x. \<not> IsPathSeparator x) cs) dotdot"
      by (subst clean_loop.simps) (simp only: a d dd if_True if_False Let_def)
    show ?thesis unfolding eq by (rule "2.IH"(6) [OF elem refl cleanInv_element [OF inv elem(1) refl]])
  qed
qed

lemma Clean_shape:
  "noDoubleSep (Clean path) \<and> Clean path \<noteq> [] \<and>
   (last (Clean path) = Separator \<longrightarrow> Clean path = [Separator])"
proof (cases "path = []")
  case True
  then show ?thesis using dot_not_sep by (simp add: Clean_def)
next
  case False
  let ?rooted = "IsPathSeparator (hd path)"
  let ?out = "if ?rooted then clean_loop True (tl path) [Separator] 1
              else clean_loop False path [] 0"
  have "\<exists>d. cleanInv ?rooted ?out d"
  proof (cases ?rooted)
    case True
    have "cleanInv True [Separator] 1" by (simp add: cleanInv_def)
    from clean_loop_inv [OF this] True show ?thesis by simp
  next
    case False
    have "cleanInv False [] 0" by (simp add: cleanInv_def)
    from clean_loop_inv [OF this] False show ?thesis by simp
  qed
  then obtain d where inv: "cleanInv ?rooted ?out d" ..
  have c: "Clean path = (if ?out = [] then ''.'' else ?out)"
    using False by (simp add: Clean_def Let_def)
  show ?thesis
  proof (cases "?out = []")
    case True
    with c show ?thesis using dot_not_sep by simp
  next
    case False
    with c have e: "Clean path = ?out" by simp
    have "last ?out = Separator \<longrightarrow> ?out = [Separator]"
    proof
      assume l: "last ?out = Separator"
      with inv False have "length ?out = 1" unfolding cleanInv_def by blast
      with l show "?out = [Separator]" by (cases ?out) auto
    qed
    moreover have "noDoubleSep ?out" using inv unfolding cleanInv_def by blast
    ultimately show ?thesis unfolding e using False by blast
  qed
qed


lemma Abs_noDoubleSep: "noDoubleSep (fst (Abs w path))"
  using Clean_shape by (simp add: Abs_def Join_def split: sum.split)

lemma TrimPrefix_append: "TrimPrefix (p @ s) p = s"
  by (simp add: TrimPrefix_def HasPrefix_def)

lemma HasPrefix_append: "HasPrefix (p @ s) p"
  by (simp add: HasPrefix_def)

lemma Abs_calls_stdout: "Abs (w\<lparr>stdout := s, calls := c\<rparr>) path = Abs w path"
  by (simp add: Abs_def)

lemma executeAdd_opened:
  assumes "fails w (calls w) (NewStorage p) = None"
    and "fails w (calls w @ [NewStorage p]) (GitOpen p dotfilesWorkdir) = None"
    and "fails w (calls w @ [NewStorage p, GitOpen p dotfilesWorkdir]) (GetWorktree p) = None"
    and "p = Join dotfilesBasedir (repoName @ ''.git'')"
    and "path = TrimPrefix (TrimPrefix (fst (Abs w addfile)) (fst (Abs w dotfilesWorkdir))) [Separator]"
  shows "executeAdd repoName addfile w =
     (w\<lparr>calls := calls w @ [NewStorage p, GitOpen p dotfilesWorkdir, GetWorktree p, StageFile p path],
        stdout := stdout w @ [''Adding '' @ addfile @ '' to '' @ repoName]\<rparr>,
      fails w (calls w @ [NewStorage p, GitOpen p dotfilesWorkdir, GetWorktree p]) (StageFile p path))"
  using assms(1-3) unfolding assms(4,5)
  by (simp add: executeAdd_def openWorkingRepo_def invoke_def println_def Let_def Abs_calls_stdout)

lemma example_abs_workdir: "fst (Abs exampleWorld dotfilesWorkdir) = ''/home/u/workdir''"
  by (simp add: Abs_def IsAbs_def HasPrefix_def exampleWorld_def dotfilesWorkdir_def Join_def
      Clean_def clean_loop.simps IsPathSeparator_def Separator_def)

lemma example_abs_bashrc: "fst (Abs exampleWorld ''workdir/.bashrc'') = ''/home/u/workdir/.bashrc''"
  by (simp add: Abs_def IsAbs_def HasPrefix_def exampleWorld_def Join_def
      Clean_def clean_loop.simps IsPathSeparator_def Separator_def)

lemma example_abs_hosts: "fst (Abs exampleWorld ''/etc/hosts'') = ''/etc/hosts''"
  by (simp add: Abs_def IsAbs_def HasPrefix_def exampleWorld_def Join_def
      Clean_def clean_loop.simps IsPathSeparator_def Separator_def)

lemma example_fails: "fails exampleWorld h c = None" and example_calls: "calls exampleWorld = []"
  and example_stdout: "stdout exampleWorld = []"
  by (simp_all add: exampleWorld_def)

section \<open>Facts about a run of the status loop\<close>









section \<open>The claims\<close>

subsection \<open>Listing\<close>

text \<open>
  Claim C7. With the verbose flag, \<open>executeList\<close> returns the fixed error
  \<open>verbose listing not implemented.\<close> and leaves the world as it was: it has not read
  the base directory. Without the flag, when the base directory can be read, it reads
  it once and prints one line per entry, in order: the entry's name without its
  extension, the extension being empty or the part of the name from its last dot on.
\<close>

theorem list_verbose_fails_plain_prints_bases:
  "executeList True w = (w, Some (Error ''verbose listing not implemented.'')) \<and>
   (fails w (calls w) (ReadDir dotfilesBasedir) = None \<longrightarrow>
      (\<exists>lines. executeList False w =
                 (w\<lparr>calls := calls w @ [ReadDir dotfilesBasedir], stdout := stdout w @ lines\<rparr>, None) \<and>
               length lines = length (dirEntries w (calls w) dotfilesBasedir) \<and>
               (\<forall>i < length lines.
                  let name = dirEntries w (calls w) dotfilesBasedir ! i
                  in lines ! i @ Ext name = name \<and>
                     (Ext name = [] \<or>
                      (\<exists>rest. Ext name = CHR ''.'' # rest \<and> CHR ''.'' \<notin> set rest \<and>
                              Separator \<notin> set rest)) \<and>
                     (Ext name = [] \<and> Separator \<notin> set name \<longrightarrow> CHR ''.'' \<notin> set name))))"
proof (intro conjI impI)
  show "executeList True w = (w, Some (Error ''verbose listing not implemented.''))"
    by (simp add: executeList_def)
next
  assume ok: "fails w (calls w) (ReadDir dotfilesBasedir) = None"
  let ?names = "dirEntries w (calls w) dotfilesBasedir"
  let ?lines = "map (\<lambda>n. TrimSuffix n (Ext n)) ?names"
  have run: "executeList False w =
      (w\<lparr>calls := calls w @ [ReadDir dotfilesBasedir], stdout := stdout w @ ?lines\<rparr>, None)"
    using ok by (simp add: executeList_def invoke_def printBases_eq)
  have each: "\<forall>i < length ?lines.
      let name = ?names ! i
      in ?lines ! i @ Ext name = name \<and>
         (Ext name = [] \<or>
          (\<exists>rest. Ext name = CHR ''.'' # rest \<and> CHR ''.'' \<notin> set rest \<and> Separator \<notin> set rest)) \<and>
         (Ext name = [] \<and> Separator \<notin> set name \<longrightarrow> CHR ''.'' \<notin> set name)"
    using Ext_shape Ext_empty_no_dot by (simp add: Let_def TrimSuffix_Ext)
  from run each show "\<exists>lines. executeList False w =
                 (w\<lparr>calls := calls w @ [ReadDir dotfilesBasedir], stdout := stdout w @ lines\<rparr>, None) \<and>
               length lines = length (dirEntries w (calls w) dotfilesBasedir) \<and>
               (\<forall>i < length lines.
                  let name = dirEntries w (calls w) dotfilesBasedir ! i
                  in lines ! i @ Ext name = name \<and>
                     (Ext name = [] \<or>
                      (\<exists>rest. Ext name = CHR ''.'' # rest \<and> CHR ''.'' \<notin> set rest \<and>
                              Separator \<notin> set rest)) \<and>
                     (Ext name = [] \<and> Separator \<notin> set name \<longrightarrow> CHR ''.'' \<notin> set name))"
    by (intro exI [of _ ?lines]) simp
qed

theorem list_plain_witness:
  "fails exampleWorld (calls exampleWorld) (ReadDir dotfilesBasedir) = None \<and>
   stdout (fst (executeList False exampleWorld)) = [''core'', ''notes''] \<and>
   calls (fst (executeList True exampleWorld)) = []"
  using list_verbose_fails_plain_prints_bases [of exampleWorld]
  by (simp add: exampleWorld_def executeList_def invoke_def println_def TrimSuffix_def HasSuffix_def
      Ext_def IsPathSeparator_def Separator_def)

subsection \<open>Saving\<close>

text \<open>
  Claim C2. If one of the two author variables is empty, \<open>executeSave\<close> returns an
  error, whatever the repo name and the message; the calls it has made hold neither a
  commit nor a push; and when the repository and its working tree open, the error is
  the one of \<open>getAuthor\<close>.
\<close>

theorem save_needs_author:
  assumes "environ w ''GIT_AUTHOR_NAME'' = [] \<or> environ w ''GIT_AUTHOR_EMAIL'' = []"
  shows "\<exists>w' e new. executeSave repoName msg w = (w', Some e) \<and>
           calls w' = calls w @ new \<and> stdout w' = stdout w \<and>
           (\<forall>c \<in> set new. (\<forall>r m a n m'. c \<noteq> CommitAll r m a n m') \<and> (\<forall>r. c \<noteq> Push r)) \<and>
           (let repo = Join dotfilesBasedir (repoName @ ''.git'')
            in fails w (calls w) (NewStorage repo) = None \<and>
               fails w (calls w @ [NewStorage repo]) (GitOpen repo dotfilesWorkdir) = None \<and>
               fails w (calls w @ [NewStorage repo, GitOpen repo dotfilesWorkdir])
                 (GetWorktree repo) = None \<longrightarrow>
               e = Error ''GIT_AUTHOR_NAME and GIT_AUTHOR_EMAIL envionment variables must exist.'')"
  using assms
  by (auto simp: executeSave_def openWorkingRepo_def invoke_def getAuthor_def Let_def
      split: option.splits)

theorem save_needs_author_witness:
  "(environ exampleWorld ''GIT_AUTHOR_NAME'' = [] \<or> environ exampleWorld ''GIT_AUTHOR_EMAIL'' = []) \<and>
   snd (executeSave ''core'' ''tidy'' exampleWorld) =
     Some (Error ''GIT_AUTHOR_NAME and GIT_AUTHOR_EMAIL envionment variables must exist.'') \<and>
   calls (fst (executeSave ''core'' ''tidy'' exampleWorld)) =
     [NewStorage ''dotfiles/core.git'', GitOpen ''dotfiles/core.git'' ''./workdir'',
      GetWorktree ''dotfiles/core.git'']"
  using save_needs_author [of exampleWorld "''core''" "''tidy''"]
  by (simp add: exampleWorld_def executeSave_def openWorkingRepo_def invoke_def getAuthor_def
      dotfilesBasedir_def dotfilesWorkdir_def Join_def Clean_def clean_loop.simps IsPathSeparator_def Separator_def
      Let_def)

subsection \<open>Undo\<close>

text \<open>
  Claim C9. The \<open>undo\<close> command is declared for the parser, and no case of the switch
  in \<open>main\<close> handles it: whatever its repo name, \<open>main\<close> makes no call, prints nothing,
  leaves the world as it was, and exits with status 0.
\<close>

theorem undo_is_not_dispatched: "main ''undo'' a w = (w, 0)"
  by (simp add: main_def)

theorem undo_is_not_dispatched_witness:
  "main ''undo'' exampleArguments exampleWorld = (exampleWorld, 0)"
  using undo_is_not_dispatched [of exampleArguments exampleWorld] by simp

subsection \<open>The name of a cloned repository\<close>

text \<open>
  Claim C3. The name that \<open>executeInit\<close> derives from a remote URL is the final path
  segment of the URL, and \<open>baseName\<close> never fails. Nothing is stripped from the
  segment: a URL that ends in a separator followed by a segment gives that segment whole,
  its extension included. When the SSH agent answers, the next call is the bare clone at
  the base directory joined with the final segment.
\<close>

theorem init_names_repo_by_final_segment:
  "baseName repoUrl = (finalSegment repoUrl, None) \<and>
   (\<forall>dir seg. seg \<noteq> [] \<and> Separator \<notin> set seg \<longrightarrow>
      fst (baseName (dir @ Separator # seg)) = seg) \<and>
   (fails w (calls w) (NewSSHAgentAuth ''git'') = None \<longrightarrow>
      (\<exists>w' r rest. executeInit repoUrl w = (w', r) \<and>
         calls w' = calls w @
           [NewSSHAgentAuth ''git'',
            PlainClone (Join dotfilesBasedir (finalSegment repoUrl)) True repoUrl] @ rest))"
proof (intro conjI allI impI)
  show "baseName repoUrl = (finalSegment repoUrl, None)"
    by (simp add: baseName_def Base_is_finalSegment)
next
  fix dir seg
  assume "seg \<noteq> [] \<and> Separator \<notin> set seg"
  then have "Base ((dir @ [Separator]) @ seg @ []) = seg"
    by (intro Base_decomp) simp_all
  then show "fst (baseName (dir @ Separator # seg)) = seg"
    by (simp add: baseName_def)
next
  assume "fails w (calls w) (NewSSHAgentAuth ''git'') = None"
  then show "\<exists>w' r rest. executeInit repoUrl w = (w', r) \<and>
         calls w' = calls w @
           [NewSSHAgentAuth ''git'',
            PlainClone (Join dotfilesBasedir (finalSegment repoUrl)) True repoUrl] @ rest"
    by (simp add: executeInit_def baseName_def Base_is_finalSegment getAuthMethod_def
        invoke_def println_def Let_def split: option.split)
qed

theorem init_names_repo_witness:
  "fails exampleWorld (calls exampleWorld) (NewSSHAgentAuth ''git'') = None \<and>
   baseName ''git@host:user/dotfiles-core.git'' = (''dotfiles-core.git'', None) \<and>
   (\<exists>w' r rest. executeInit ''git@host:user/dotfiles-core.git'' exampleWorld = (w', r) \<and>
      calls w' = calls exampleWorld @
        [NewSSHAgentAuth ''git'',
         PlainClone ''dotfiles/dotfiles-core.git'' True ''git@host:user/dotfiles-core.git''] @ rest)"
proof -
  let ?url = "''git@host:user/dotfiles-core.git''"
  have ok: "fails exampleWorld (calls exampleWorld) (NewSSHAgentAuth ''git'') = None"
    by (simp add: exampleWorld_def)
  have seg: "finalSegment ?url = ''dotfiles-core.git''"
    by (simp add: finalSegment_def Separator_def)
  have path: "Join dotfilesBasedir ''dotfiles-core.git'' = ''dotfiles/dotfiles-core.git''"
    by (simp add: Join_def Clean_def clean_loop.simps dotfilesBasedir_def IsPathSeparator_def Separator_def)
  note inst = init_names_repo_by_final_segment [of ?url exampleWorld, unfolded seg path]
  from inst ok show ?thesis by blast
qed

subsection \<open>Status\<close>

text \<open>
  Claim C6. Every repo whose status is printed is printed by one round of the status
  loop, \<open>statusOf\<close>, that returns no error (with a repo name given, the command is that
  one round). Its output is the header and then the lines of the status map \<open>st\<close> that
  the library returned: each file of the map whose working-tree code is Modified, Added
  or Deleted has exactly one line, the code in brackets before its name; each other file
  has none; and there is no other line. The files of a map are distinct.
\<close>

theorem status_prints_changed_files:
  assumes "statusOf repoName w = (w', None)"
    and "wtStatus w (calls w @ [NewStorage (Join dotfilesBasedir (repoName @ ''.git'')),
           GitOpen (Join dotfilesBasedir (repoName @ ''.git'')) dotfilesWorkdir,
           GetWorktree (Join dotfilesBasedir (repoName @ ''.git''))])
           (Join dotfilesBasedir (repoName @ ''.git'')) = st"
    and "distinct (map fst st)"
  shows "\<exists>lines. stdout w' = stdout w @ (repoName @ '':'') # lines \<and>
     length lines = length (filter shown st) \<and>
     (\<forall>e \<in> set st. count_list lines (''['' @ [Worktree (snd e)] @ ''] '' @ fst e) =
        (if Worktree (snd e) = Modified \<or> Worktree (snd e) = Added \<or> Worktree (snd e) = Deleted
         then 1 else 0)) \<and>
     (\<forall>l \<in> set lines. \<exists>e \<in> set st.
        (Worktree (snd e) = Modified \<or> Worktree (snd e) = Added \<or> Worktree (snd e) = Deleted) \<and>
        l = ''['' @ [Worktree (snd e)] @ ''] '' @ fst e) \<and>
     (repoName \<noteq> [] \<longrightarrow> executeStatus repoName w = (w', None))"
proof -
  let ?lines = "map statusLine (filter shown st)"
  from statusOf_result [OF assms(1)] assms(2)
  have out: "stdout w' = stdout w @ (repoName @ '':'') # ?lines"
    by (auto simp: repoPath_def)
  have cnt: "\<forall>e \<in> set st. count_list ?lines (''['' @ [Worktree (snd e)] @ ''] '' @ fst e) =
        (if Worktree (snd e) = Modified \<or> Worktree (snd e) = Added \<or> Worktree (snd e) = Deleted
         then 1 else 0)"
  proof
    fix e assume e: "e \<in> set st"
    have "count_list ?lines (statusLine e) = (if statusLine e \<in> set ?lines then 1 else 0)"
      by (rule count_list_distinct) (rule distinct_statusLines [OF assms(3)])
    also have "\<dots> = (if shown e then 1 else 0)"
      using statusLine_shown [OF assms(3) e] by simp
    finally show "count_list ?lines (''['' @ [Worktree (snd e)] @ ''] '' @ fst e) =
        (if Worktree (snd e) = Modified \<or> Worktree (snd e) = Added \<or> Worktree (snd e) = Deleted
         then 1 else 0)"
      by (simp add: statusLine_def shown_def)
  qed
  have only: "\<forall>l \<in> set ?lines. \<exists>e \<in> set st.
        (Worktree (snd e) = Modified \<or> Worktree (snd e) = Added \<or> Worktree (snd e) = Deleted) \<and>
        l = ''['' @ [Worktree (snd e)] @ ''] '' @ fst e"
  proof
    fix l assume "l \<in> set ?lines"
    then obtain e where "e \<in> set st" "shown e" "l = statusLine e" by auto
    then show "\<exists>e \<in> set st.
        (Worktree (snd e) = Modified \<or> Worktree (snd e) = Added \<or> Worktree (snd e) = Deleted) \<and>
        l = ''['' @ [Worktree (snd e)] @ ''] '' @ fst e"
      by (intro bexI [of _ e]) (simp_all add: statusLine_def shown_def)
  qed
  have named: "repoName \<noteq> [] \<longrightarrow> executeStatus repoName w = (w', None)"
    using assms(1) by (simp add: executeStatus_def)
  show ?thesis
    by (intro exI [of _ ?lines] conjI out cnt only named) simp
qed

theorem status_prints_changed_files_witness:
  "snd (statusOf ''core'' exampleWorld) = None \<and>
   distinct (map fst (wtStatus exampleWorld [] ''dotfiles/core.git'')) \<and>
   (\<exists>lines. stdout (fst (statusOf ''core'' exampleWorld)) = ''core:'' # lines \<and>
      count_list lines ''[M] .bashrc'' = 1 \<and> count_list lines ''[ ] .vimrc'' = 0)"
proof -
  let ?st = "[(''.bashrc'', \<lparr>Staging = Unmodified, Worktree = Modified, Extra = []\<rparr>),
              (''.vimrc'', \<lparr>Staging = Unmodified, Worktree = Unmodified, Extra = []\<rparr>)]"
  have w: "exampleWorld\<lparr>calls := []\<rparr> = exampleWorld" by (simp add: exampleWorld_def)
  have run: "statusOf ''core'' exampleWorld = (fst (statusOf ''core'' exampleWorld), None)"
    using example_statusOf_core [of "[]"] by (simp add: w)
  have st: "wtStatus exampleWorld (calls exampleWorld @
      [NewStorage (Join dotfilesBasedir (''core'' @ ''.git'')),
       GitOpen (Join dotfilesBasedir (''core'' @ ''.git'')) dotfilesWorkdir,
       GetWorktree (Join dotfilesBasedir (''core'' @ ''.git''))])
      (Join dotfilesBasedir (''core'' @ ''.git'')) = ?st"
    by (simp add: exampleWorld_def)
  have d: "distinct (map fst ?st)" by simp
  from status_prints_changed_files [OF run st d] obtain lines where
    l: "stdout (fst (statusOf ''core'' exampleWorld)) = stdout exampleWorld @ (''core'' @ '':'') # lines"
    and c: "\<forall>e \<in> set ?st. count_list lines (''['' @ [Worktree (snd e)] @ ''] '' @ fst e) =
        (if Worktree (snd e) = Modified \<or> Worktree (snd e) = Added \<or> Worktree (snd e) = Deleted
         then 1 else 0)"
    by blast
  from c have "count_list lines ''[M] .bashrc'' = 1 \<and> count_list lines ''[ ] .vimrc'' = 0"
    by (simp add: Modified_def Added_def Deleted_def Unmodified_def)
  moreover from l have "stdout (fst (statusOf ''core'' exampleWorld)) = ''core:'' # lines"
    by (simp add: exampleWorld_def)
  moreover have "distinct (map fst (wtStatus exampleWorld [] ''dotfiles/core.git''))"
    by (simp add: exampleWorld_def)
  ultimately show ?thesis using run by (metis snd_conv)
qed




text \<open>
  Claim C10. An entry of the base directory whose name does not end in \<open>.git\<close> is
  not left out: trimming the suffix leaves its name as it is, and when the entries
  listed before it have been gone through without error, the status command prints its
  name as a header and opens a storage for it, at the base directory joined with the
  name and \<open>.git\<close>.
\<close>

theorem status_all_keeps_other_entries:
  assumes "fails w (calls w) (ReadDir dotfilesBasedir) = None"
    and "dirEntries w (calls w) dotfilesBasedir = before @ f # after"
    and "\<not> HasSuffix f ''.git''"
    and "statusLoop (map (\<lambda>g. TrimSuffix g ''.git'') before)
           (w\<lparr>calls := calls w @ [ReadDir dotfilesBasedir]\<rparr>) = (wi, None)"
  shows "TrimSuffix f ''.git'' = f \<and>
     (\<exists>w' r rest out. executeStatus [] w = (w', r) \<and>
        calls w' = calls wi @ NewStorage (Join dotfilesBasedir (f @ ''.git'')) # rest \<and>
        stdout w' = stdout wi @ (f @ '':'') # out)"
proof
  show same: "TrimSuffix f ''.git'' = f" using assms(3) by (rule TrimSuffix_other)
  let ?trim = "\<lambda>g. TrimSuffix g ''.git''"
  let ?w1 = "w\<lparr>calls := calls w @ [ReadDir dotfilesBasedir]\<rparr>"
  have "executeStatus [] w = statusLoop (map ?trim before @ f # map ?trim after) ?w1"
    using assms(1,2) same by (simp add: executeStatus_def invoke_def)
  also have "\<dots> = statusLoop (f # map ?trim after) wi"
    using assms(4) by (simp add: statusLoop_append)
  finally have ex: "executeStatus [] w = statusLoop (f # map ?trim after) wi" .
  obtain w' r where run: "statusLoop (f # map ?trim after) wi = (w', r)"
    by (cases "statusLoop (f # map ?trim after) wi")
  from statusLoop_Cons_trace [OF run] ex run
  show "\<exists>w' r rest out. executeStatus [] w = (w', r) \<and>
        calls w' = calls wi @ NewStorage (Join dotfilesBasedir (f @ ''.git'')) # rest \<and>
        stdout w' = stdout wi @ (f @ '':'') # out"
    by (simp add: repoPath_def)
qed

theorem status_all_keeps_other_entries_witness:
  "fails exampleWorld (calls exampleWorld) (ReadDir dotfilesBasedir) = None \<and>
   dirEntries exampleWorld (calls exampleWorld) dotfilesBasedir = [''core.git''] @ ''notes.txt'' # [] \<and>
   \<not> HasSuffix ''notes.txt'' ''.git'' \<and>
   (\<exists>w' r rest out. executeStatus [] exampleWorld = (w', r) \<and>
      calls w' = [ReadDir dotfilesBasedir] @ repoCalls ''core'' @
                 NewStorage ''dotfiles/notes.txt.git'' # rest \<and>
      stdout w' = [''core:'', ''[M] .bashrc''] @ ''notes.txt:'' # out)"
proof -
  let ?wi = "exampleWorld\<lparr>calls := [ReadDir dotfilesBasedir] @ repoCalls ''core'',
                           stdout := [''core:'', ''[M] .bashrc'']\<rparr>"
  have ok: "fails exampleWorld (calls exampleWorld) (ReadDir dotfilesBasedir) = None"
    and es: "dirEntries exampleWorld (calls exampleWorld) dotfilesBasedir = [''core.git''] @ ''notes.txt'' # []"
    and c0: "calls exampleWorld = []"
    by (simp_all add: exampleWorld_def)
  have no: "\<not> HasSuffix ''notes.txt'' ''.git''" by (simp add: HasSuffix_def)
  have t: "TrimSuffix ''core.git'' ''.git'' = ''core''" by (simp add: TrimSuffix_def HasSuffix_def)
  have first: "statusLoop (map (\<lambda>g. TrimSuffix g ''.git'') [''core.git''])
      (exampleWorld\<lparr>calls := calls exampleWorld @ [ReadDir dotfilesBasedir]\<rparr>) = (?wi, None)"
    by (simp add: t c0 example_statusOf_core)
  from status_all_keeps_other_entries [OF ok es no first]
  have "\<exists>w' r rest out. executeStatus [] exampleWorld = (w', r) \<and>
        calls w' = calls ?wi @ NewStorage (Join dotfilesBasedir (''notes.txt'' @ ''.git'')) # rest \<and>
        stdout w' = stdout ?wi @ (''notes.txt'' @ '':'') # out"
    by blast
  then have "\<exists>w' r rest out. executeStatus [] exampleWorld = (w', r) \<and>
      calls w' = [ReadDir dotfilesBasedir] @ repoCalls ''core'' @
                 NewStorage ''dotfiles/notes.txt.git'' # rest \<and>
      stdout w' = [''core:'', ''[M] .bashrc''] @ ''notes.txt:'' # out"
    unfolding example_notes_path by simp
  with ok es no show ?thesis by blast
qed

subsection \<open>Errors\<close>

text \<open>
  Claim C8, as stated, fails on \<open>executeAdd\<close>: the two calls of \<open>filepath.Abs\<close> return
  an error when the current directory cannot be found, \<open>executeAdd\<close> discards both
  errors and goes on to the staging call, with the empty path. What it returns is the
  answer of that call, here the library's error for a path it does not find, and not the
  error it met first.
\<close>

theorem add_discards_path_errors_counterexample:
  "snd (Abs cwdGoneWorld ''.bashrc'') = Some (Error ''getwd: no such file or directory'') \<and>
   snd (Abs cwdGoneWorld dotfilesWorkdir) = Some (Error ''getwd: no such file or directory'') \<and>
   executeAdd ''core'' ''.bashrc'' cwdGoneWorld =
     (cwdGoneWorld\<lparr>calls :=
        [NewStorage ''dotfiles/core.git'', GitOpen ''dotfiles/core.git'' ''./workdir'',
         GetWorktree ''dotfiles/core.git'', StageFile ''dotfiles/core.git'' []],
        stdout := [''Adding .bashrc to core'']\<rparr>,
      Some (Error ''entry not found''))"
  by (simp add: cwdGoneWorld_def exampleWorld_def executeAdd_def openWorkingRepo_def invoke_def
      println_def Abs_def IsAbs_def HasPrefix_def TrimPrefix_def dotfilesWorkdir_def
      example_core_path [simplified] Let_def)

text \<open>
  Claim C8, amended. Every command function returns the first error of a call whose
  error it checks (every call to the version-control library, to the SSH agent and to
  the directory listing) and makes no call after it; nothing that was done is undone,
  the calls made so far stay as they are. The add command discards the errors of its two
  absolute-path computations. In particular, when the commit of a save succeeds and the
  push fails, save returns the error of the push, and the commit is among the calls made,
  with nothing after the push. And when the check of the author variables fails, save
  returns an error having made neither the commit nor the push.
\<close>

theorem commands_stop_at_first_checked_error:
  "stopsAtFirstError w (executeInit repoUrl w) \<and>
   stopsAtFirstError w (executeList verbose w) \<and>
   stopsAtFirstError w (executeStatus repoName w) \<and>
   stopsAtFirstError w (executeAdd repoName addfile w) \<and>
   stopsAtFirstError w (executeSave repoName msg w) \<and>
   stopsAtFirstError w (executePull repoName w) \<and>
   (let p = Join dotfilesBasedir (repoName @ ''.git'');
        opened = calls w @ [NewStorage p, GitOpen p dotfilesWorkdir, GetWorktree p];
        commit = CommitAll p msg True (environ w ''GIT_AUTHOR_NAME'') (environ w ''GIT_AUTHOR_EMAIL'')
    in fails w (calls w) (NewStorage p) = None \<and>
       fails w (calls w @ [NewStorage p]) (GitOpen p dotfilesWorkdir) = None \<and>
       fails w (calls w @ [NewStorage p, GitOpen p dotfilesWorkdir]) (GetWorktree p) = None \<and>
       environ w ''GIT_AUTHOR_NAME'' \<noteq> [] \<and> environ w ''GIT_AUTHOR_EMAIL'' \<noteq> [] \<and>
       fails w opened commit = None \<and>
       fails w (opened @ [commit]) (NewSSHAgentAuth ''git'') = None \<and>
       fails w (opened @ [commit, NewSSHAgentAuth ''git'']) (Push p) = Some e \<longrightarrow>
       executeSave repoName msg w =
         (w\<lparr>calls := opened @ [commit, NewSSHAgentAuth ''git'', Push p]\<rparr>, Some e)) \<and>
   (environ w ''GIT_AUTHOR_NAME'' = [] \<or> environ w ''GIT_AUTHOR_EMAIL'' = [] \<longrightarrow>
      (\<exists>w' err new. executeSave repoName msg w = (w', Some err) \<and> calls w' = calls w @ new \<and>
         (\<forall>c \<in> set new. (\<forall>r m a n m'. c \<noteq> CommitAll r m a n m') \<and> (\<forall>r. c \<noteq> Push r))))"
proof (intro conjI)
  show "environ w ''GIT_AUTHOR_NAME'' = [] \<or> environ w ''GIT_AUTHOR_EMAIL'' = [] \<longrightarrow>
      (\<exists>w' err new. executeSave repoName msg w = (w', Some err) \<and> calls w' = calls w @ new \<and>
         (\<forall>c \<in> set new. (\<forall>r m a n m'. c \<noteq> CommitAll r m a n m') \<and> (\<forall>r. c \<noteq> Push r)))"
    by (auto simp: executeSave_def openWorkingRepo_def invoke_def getAuthor_def Let_def
        split: option.splits)
  show "let p = Join dotfilesBasedir (repoName @ ''.git'');
        opened = calls w @ [NewStorage p, GitOpen p dotfilesWorkdir, GetWorktree p];
        commit = CommitAll p msg True (environ w ''GIT_AUTHOR_NAME'') (environ w ''GIT_AUTHOR_EMAIL'')
    in fails w (calls w) (NewStorage p) = None \<and>
       fails w (calls w @ [NewStorage p]) (GitOpen p dotfilesWorkdir) = None \<and>
       fails w (calls w @ [NewStorage p, GitOpen p dotfilesWorkdir]) (GetWorktree p) = None \<and>
       environ w ''GIT_AUTHOR_NAME'' \<noteq> [] \<and> environ w ''GIT_AUTHOR_EMAIL'' \<noteq> [] \<and>
       fails w opened commit = None \<and>
       fails w (opened @ [commit]) (NewSSHAgentAuth ''git'') = None \<and>
       fails w (opened @ [commit, NewSSHAgentAuth ''git'']) (Push p) = Some e \<longrightarrow>
       executeSave repoName msg w =
         (w\<lparr>calls := opened @ [commit, NewSSHAgentAuth ''git'', Push p]\<rparr>, Some e)"
    by (simp add: Let_def executeSave_def openWorkingRepo_def getAuthor_def getAuthMethod_def
        invoke_def)
qed (rule stops_Init stops_List stops_Status stops_Add stops_Save stops_Pull)+

theorem push_failure_keeps_commit_witness:
  "stopsAtFirstError pushFailsWorld (executeSave ''core'' ''tidy'' pushFailsWorld) \<and>
   executeSave ''core'' ''tidy'' pushFailsWorld =
     (pushFailsWorld\<lparr>calls :=
        [NewStorage ''dotfiles/core.git'', GitOpen ''dotfiles/core.git'' ''./workdir'',
         GetWorktree ''dotfiles/core.git'',
         CommitAll ''dotfiles/core.git'' ''tidy'' True ''somebody'' ''somebody'',
         NewSSHAgentAuth ''git'', Push ''dotfiles/core.git'']\<rparr>,
      Some (Error ''push rejected''))"
proof -
  note inst = commands_stop_at_first_checked_error
    [of pushFailsWorld _ _ "''core''" _ "''tidy''" "Error ''push rejected''",
     unfolded example_core_path Let_def]
  have c0: "calls pushFailsWorld = []" and e: "environ pushFailsWorld = (\<lambda>v. ''somebody'')"
    and f: "fails pushFailsWorld =
      (\<lambda>h c. case c of Push r \<Rightarrow> Some (Error ''push rejected'') | _ \<Rightarrow> None)"
    by (simp_all add: pushFailsWorld_def exampleWorld_def)
  note s = inst [THEN conjunct2, THEN conjunct2, THEN conjunct2, THEN conjunct2, THEN conjunct1]
  note p = inst [THEN conjunct2, THEN conjunct2, THEN conjunct2, THEN conjunct2, THEN conjunct2,
    THEN conjunct2, THEN conjunct1]
  have eq: "executeSave ''core'' ''tidy'' pushFailsWorld =
     (pushFailsWorld\<lparr>calls :=
        [NewStorage ''dotfiles/core.git'', GitOpen ''dotfiles/core.git'' ''./workdir'',
         GetWorktree ''dotfiles/core.git'',
         CommitAll ''dotfiles/core.git'' ''tidy'' True ''somebody'' ''somebody'',
         NewSSHAgentAuth ''git'', Push ''dotfiles/core.git'']\<rparr>,
      Some (Error ''push rejected''))"
    using p by (simp add: c0 e f dotfilesWorkdir_def)
  show ?thesis by (rule conjI [OF s eq])
qed

subsection \<open>Adding\<close>

text \<open>
  Claim C1. Let the current directory be known and the repository and its working tree
  open. For a file inside the working directory, that is, one whose absolute path is the
  absolute path of the working directory, a separator, and a rest \<open>rel\<close>, the add
  command stages exactly \<open>rel\<close>, the absolute path with the working directory's
  prefix and then one separator stripped, and returns what the staging call returns.
  That path has no leading separator, since an absolute path is cleaned and so never
  has two separators side by side.
\<close>

theorem add_stages_path_below_workdir:
  assumes "getwd w = Inr wd"
    and "fails w (calls w) (NewStorage p) = None"
    and "fails w (calls w @ [NewStorage p]) (GitOpen p dotfilesWorkdir) = None"
    and "fails w (calls w @ [NewStorage p, GitOpen p dotfilesWorkdir]) (GetWorktree p) = None"
    and "p = Join dotfilesBasedir (repoName @ ''.git'')"
    and "fst (Abs w addfile) = fst (Abs w dotfilesWorkdir) @ Separator # rel"
  shows "executeAdd repoName addfile w =
     (w\<lparr>calls := calls w @ [NewStorage p, GitOpen p dotfilesWorkdir, GetWorktree p, StageFile p rel],
        stdout := stdout w @ [''Adding '' @ addfile @ '' to '' @ repoName]\<rparr>,
      fails w (calls w @ [NewStorage p, GitOpen p dotfilesWorkdir, GetWorktree p]) (StageFile p rel)) \<and>
     \<not> HasPrefix rel [Separator]"
proof
  have "TrimPrefix (fst (Abs w addfile)) (fst (Abs w dotfilesWorkdir)) = Separator # rel"
    unfolding assms(6) by (rule TrimPrefix_append)
  then have "TrimPrefix (TrimPrefix (fst (Abs w addfile)) (fst (Abs w dotfilesWorkdir))) [Separator] = rel"
    using TrimPrefix_append [of "[Separator]" rel] by simp
  then show "executeAdd repoName addfile w =
     (w\<lparr>calls := calls w @ [NewStorage p, GitOpen p dotfilesWorkdir, GetWorktree p, StageFile p rel],
        stdout := stdout w @ [''Adding '' @ addfile @ '' to '' @ repoName]\<rparr>,
      fails w (calls w @ [NewStorage p, GitOpen p dotfilesWorkdir, GetWorktree p]) (StageFile p rel))"
    using executeAdd_opened [OF assms(2-5)] by simp
  have "noDoubleSep (fst (Abs w dotfilesWorkdir) @ Separator # rel)"
    using Abs_noDoubleSep [of w addfile] unfolding assms(6) .
  then have "noDoubleSep (Separator # rel)" by (simp add: noDoubleSep_append del: noDoubleSep.simps)
  then show "\<not> HasPrefix rel [Separator]"
    by (cases rel) (auto simp: HasPrefix_def)
qed

theorem add_stages_path_below_workdir_witness:
  "getwd exampleWorld = Inr ''/home/u'' \<and>
   fst (Abs exampleWorld ''workdir/.bashrc'') =
     fst (Abs exampleWorld dotfilesWorkdir) @ Separator # ''.bashrc'' \<and>
   executeAdd ''core'' ''workdir/.bashrc'' exampleWorld =
     (exampleWorld\<lparr>calls :=
        [NewStorage ''dotfiles/core.git'', GitOpen ''dotfiles/core.git'' dotfilesWorkdir,
         GetWorktree ''dotfiles/core.git'', StageFile ''dotfiles/core.git'' ''.bashrc''],
        stdout := [''Adding workdir/.bashrc to core'']\<rparr>,
      None) \<and>
   \<not> HasPrefix ''.bashrc'' [Separator]"
proof -
  have g: "getwd exampleWorld = Inr ''/home/u''" by (simp add: exampleWorld_def)
  have i: "fst (Abs exampleWorld ''workdir/.bashrc'') =
      fst (Abs exampleWorld dotfilesWorkdir) @ Separator # ''.bashrc''"
    by (simp add: example_abs_workdir example_abs_bashrc Separator_def)
  from add_stages_path_below_workdir
    [OF g example_fails example_fails example_fails example_core_path [symmetric] i]
  show ?thesis using g i by (simp add: example_fails example_calls example_stdout)
qed

text \<open>
  Claim C4, as stated, fails: \<open>executeAdd\<close> has no check of where the file lies. In
  the example world the file \<open>/etc/hosts\<close> is outside the working directory
  \<open>/home/u/workdir\<close>; the command strips the leading separator, stages
  \<open>etc/hosts\<close>, and returns no error when the staging call succeeds.
\<close>

theorem add_outside_workdir_counterexample:
  "\<not> HasPrefix (fst (Abs exampleWorld ''/etc/hosts'')) (fst (Abs exampleWorld dotfilesWorkdir)) \<and>
   executeAdd ''core'' ''/etc/hosts'' exampleWorld =
     (exampleWorld\<lparr>calls :=
        [NewStorage ''dotfiles/core.git'', GitOpen ''dotfiles/core.git'' ''./workdir'',
         GetWorktree ''dotfiles/core.git'', StageFile ''dotfiles/core.git'' ''etc/hosts''],
        stdout := [''Adding /etc/hosts to core'']\<rparr>,
      None)"
proof -
  have o: "\<not> HasPrefix (fst (Abs exampleWorld ''/etc/hosts'')) (fst (Abs exampleWorld dotfilesWorkdir))"
    by (simp add: example_abs_workdir example_abs_hosts HasPrefix_def)
  have p: "''etc/hosts'' = TrimPrefix (TrimPrefix (fst (Abs exampleWorld ''/etc/hosts''))
      (fst (Abs exampleWorld dotfilesWorkdir))) [Separator]"
    by (simp add: example_abs_workdir example_abs_hosts HasPrefix_def TrimPrefix_def Separator_def)
  have "executeAdd ''core'' ''/etc/hosts'' exampleWorld =
     (exampleWorld\<lparr>calls :=
        [NewStorage ''dotfiles/core.git'', GitOpen ''dotfiles/core.git'' ''./workdir'',
         GetWorktree ''dotfiles/core.git'', StageFile ''dotfiles/core.git'' ''etc/hosts''],
        stdout := [''Adding /etc/hosts to core'']\<rparr>,
      None)"
    using executeAdd_opened
      [OF example_fails example_fails example_fails example_core_path [symmetric] p]
    by (simp add: example_fails example_calls example_stdout dotfilesWorkdir_def)
  with o show ?thesis by (rule conjI)
qed

text \<open>
  Claim C4, amended. For a file whose absolute path lies outside the working directory,
  the add command makes no check of its own: once the repository and its working tree
  are open, it calls the staging operation with the absolute path stripped of the
  working directory's path where that is a textual prefix, and of one leading separator,
  and returns the result of that call. The path staged is then not the file's location
  under the working directory; when the working directory's path is no textual prefix,
  it is the absolute path without its leading separator.
\<close>

theorem add_outside_workdir_is_unchecked:
  assumes "fails w (calls w) (NewStorage p) = None"
    and "fails w (calls w @ [NewStorage p]) (GitOpen p dotfilesWorkdir) = None"
    and "fails w (calls w @ [NewStorage p, GitOpen p dotfilesWorkdir]) (GetWorktree p) = None"
    and "p = Join dotfilesBasedir (repoName @ ''.git'')"
    and "\<not> HasPrefix (fst (Abs w addfile)) (fst (Abs w dotfilesWorkdir) @ [Separator])"
    and "path = TrimPrefix (TrimPrefix (fst (Abs w addfile)) (fst (Abs w dotfilesWorkdir))) [Separator]"
  shows "executeAdd repoName addfile w =
     (w\<lparr>calls := calls w @ [NewStorage p, GitOpen p dotfilesWorkdir, GetWorktree p, StageFile p path],
        stdout := stdout w @ [''Adding '' @ addfile @ '' to '' @ repoName]\<rparr>,
      fails w (calls w @ [NewStorage p, GitOpen p dotfilesWorkdir, GetWorktree p]) (StageFile p path)) \<and>
     fst (Abs w addfile) \<noteq> fst (Abs w dotfilesWorkdir) @ Separator # path \<and>
     (\<not> HasPrefix (fst (Abs w addfile)) (fst (Abs w dotfilesWorkdir)) \<longrightarrow>
        path = TrimPrefix (fst (Abs w addfile)) [Separator])"
proof (intro conjI impI)
  show "executeAdd repoName addfile w =
     (w\<lparr>calls := calls w @ [NewStorage p, GitOpen p dotfilesWorkdir, GetWorktree p, StageFile p path],
        stdout := stdout w @ [''Adding '' @ addfile @ '' to '' @ repoName]\<rparr>,
      fails w (calls w @ [NewStorage p, GitOpen p dotfilesWorkdir, GetWorktree p]) (StageFile p path))"
    by (rule executeAdd_opened [OF assms(1-4) assms(6)])
  show "fst (Abs w addfile) \<noteq> fst (Abs w dotfilesWorkdir) @ Separator # path"
  proof
    assume "fst (Abs w addfile) = fst (Abs w dotfilesWorkdir) @ Separator # path"
    then have "fst (Abs w addfile) = (fst (Abs w dotfilesWorkdir) @ [Separator]) @ path" by simp
    then have "HasPrefix (fst (Abs w addfile)) (fst (Abs w dotfilesWorkdir) @ [Separator])"
      using HasPrefix_append by metis
    with assms(5) show False by simp
  qed
  assume "\<not> HasPrefix (fst (Abs w addfile)) (fst (Abs w dotfilesWorkdir))"
  then show "path = TrimPrefix (fst (Abs w addfile)) [Separator]"
    unfolding assms(6) by (simp add: TrimPrefix_def)
qed

theorem add_outside_workdir_is_unchecked_witness:
  "\<not> HasPrefix (fst (Abs exampleWorld ''/etc/hosts'')) (fst (Abs exampleWorld dotfilesWorkdir) @ [Separator]) \<and>
   snd (executeAdd ''core'' ''/etc/hosts'' exampleWorld) =
     fails exampleWorld
       [NewStorage ''dotfiles/core.git'', GitOpen ''dotfiles/core.git'' dotfilesWorkdir,
        GetWorktree ''dotfiles/core.git'']
       (StageFile ''dotfiles/core.git'' ''etc/hosts'')"
proof -
  have o: "\<not> HasPrefix (fst (Abs exampleWorld ''/etc/hosts''))
      (fst (Abs exampleWorld dotfilesWorkdir) @ [Separator])"
    by (simp add: example_abs_workdir example_abs_hosts HasPrefix_def)
  have p: "''etc/hosts'' = TrimPrefix (TrimPrefix (fst (Abs exampleWorld ''/etc/hosts''))
      (fst (Abs exampleWorld dotfilesWorkdir))) [Separator]"
    by (simp add: example_abs_workdir example_abs_hosts HasPrefix_def TrimPrefix_def Separator_def)
  from add_outside_workdir_is_unchecked
    [OF example_fails example_fails example_fails example_core_path [symmetric] o p]
  show ?thesis using o by (simp add: example_calls)
qed

end
